theory Spec2Isabelle
  imports Complex_Main
begin

section \<open>Units and the rule tables\<close>

datatype UnitType = AI | Tech | Virus | Program | Firewall

datatype Player = Attacker | Defender

text \<open>The integer each \<open>UnitType\<close> member carries; it indexes the rule tables.\<close>

fun type_value :: "UnitType \<Rightarrow> nat" where
  "type_value AI = 0"
| "type_value Tech = 1"
| "type_value Virus = 2"
| "type_value Program = 3"
| "type_value Firewall = 4"

fun type_name :: "UnitType \<Rightarrow> string" where
  "type_name AI = ''AI''"
| "type_name Tech = ''Tech''"
| "type_name Virus = ''Virus''"
| "type_name Program = ''Program''"
| "type_name Firewall = ''Firewall''"

fun player_name :: "Player \<Rightarrow> string" where
  "player_name Attacker = ''Attacker''"
| "player_name Defender = ''Defender''"

fun player_next :: "Player \<Rightarrow> Player" where
  "player_next Attacker = Defender"
| "player_next Defender = Attacker"

record Unit =
  player :: Player
  type :: UnitType
  health :: int

definition damage_table :: "int list list" where
  "damage_table =
    [[3, 3, 3, 3, 1],
     [1, 1, 6, 1, 1],
     [9, 6, 1, 6, 1],
     [3, 3, 3, 3, 1],
     [1, 1, 1, 1, 1]]"

definition repair_table :: "int list list" where
  "repair_table =
    [[0, 1, 1, 0, 0],
     [3, 0, 0, 3, 3],
     [0, 0, 0, 0, 0],
     [0, 0, 0, 0, 0],
     [0, 0, 0, 0, 0]]"

definition is_alive :: "Unit \<Rightarrow> bool" where
  "is_alive u = (health u > 0)"

text \<open>\<open>Unit.mod_health\<close>: add the delta, then clamp into 0..9.\<close>

definition unit_mod_health :: "Unit \<Rightarrow> int \<Rightarrow> Unit" where
  "unit_mod_health u health_delta =
    (let h = health u + health_delta in
     if h < 0 then u\<lparr>health := 0\<rparr>
     else if h > 9 then u\<lparr>health := 9\<rparr>
     else u\<lparr>health := h\<rparr>)"

section \<open>Coordinates\<close>

record Coord =
  row :: int
  col :: int

record CoordPair =
  src :: Coord
  dst :: Coord

definition iter_adjacent :: "Coord \<Rightarrow> Coord list" where
  "iter_adjacent c =
    [\<lparr>row = row c - 1, col = col c\<rparr>,
     \<lparr>row = row c, col = col c - 1\<rparr>,
     \<lparr>row = row c + 1, col = col c\<rparr>,
     \<lparr>row = row c, col = col c + 1\<rparr>]"

definition iter_all8_adjacent :: "Coord \<Rightarrow> Coord list" where
  "iter_all8_adjacent c =
    [\<lparr>row = row c - 1, col = col c\<rparr>,
     \<lparr>row = row c + 1, col = col c\<rparr>,
     \<lparr>row = row c, col = col c - 1\<rparr>,
     \<lparr>row = row c, col = col c + 1\<rparr>,
     \<lparr>row = row c - 1, col = col c - 1\<rparr>,
     \<lparr>row = row c - 1, col = col c + 1\<rparr>,
     \<lparr>row = row c + 1, col = col c - 1\<rparr>,
     \<lparr>row = row c + 1, col = col c + 1\<rparr>]"

text \<open>\<open>CoordPair.iter_rectangle\<close>: row-major over the two inclusive ranges.\<close>

definition iter_rectangle :: "CoordPair \<Rightarrow> Coord list" where
  "iter_rectangle cp =
    concat (map (\<lambda>r. map (\<lambda>c. \<lparr>row = r, col = c\<rparr>) [col (src cp)..col (dst cp)])
                [row (src cp)..row (dst cp)])"

definition from_dim :: "int \<Rightarrow> CoordPair" where
  "from_dim d = \<lparr>src = \<lparr>row = 0, col = 0\<rparr>, dst = \<lparr>row = d - 1, col = d - 1\<rparr>\<rparr>"

section \<open>Game state\<close>

text \<open>
  The game options. Only \<open>dim\<close> is read by the functions modelled here. The fields
  \<open>min_depth\<close>, \<open>max_time\<close> (a float), \<open>game_type\<close>, \<open>randomize_moves\<close> and
  \<open>broker\<close> of the source are left out.
\<close>

record Options =
  dim :: int
  max_depth :: int
  alpha_beta :: bool
  max_turns :: "int option"

definition default_options :: Options where
  "default_options = \<lparr>dim = 5, max_depth = 4, alpha_beta = True, max_turns = Some 100\<rparr>"

text \<open>
  The board is a list of rows, each a list of cells, as in the source. A cell holds
  a unit or \<open>None\<close>. Units are objects that the source mutates in place; a cell is
  the only reference to its unit (a move copies the reference to the destination and
  then clears the source, and \<open>clone\<close> deep-copies the board), so the model stores
  the unit's value in the cell.
\<close>

record Game =
  board :: "Unit option list list"
  next_player :: Player
  turns_played :: int
  options :: Options
  attacker_has_ai :: bool
  defender_has_ai :: bool

definition is_valid_coord :: "Game \<Rightarrow> Coord \<Rightarrow> bool" where
  "is_valid_coord g coord =
    (if row coord < 0 \<or> row coord \<ge> dim (options g)
        \<or> col coord < 0 \<or> col coord \<ge> dim (options g)
     then False else True)"

text \<open>\<open>is_empty\<close> reads the cell directly; the source calls it on valid coordinates only.\<close>

definition is_empty :: "Game \<Rightarrow> Coord \<Rightarrow> bool" where
  "is_empty g coord = (board g ! nat (row coord) ! nat (col coord) = None)"

definition get :: "Game \<Rightarrow> Coord \<Rightarrow> Unit option" where
  "get g coord =
    (if is_valid_coord g coord then board g ! nat (row coord) ! nat (col coord)
     else None)"

definition set_cell :: "Game \<Rightarrow> Coord \<Rightarrow> Unit option \<Rightarrow> Game" where
  "set_cell g coord unit =
    (if is_valid_coord g coord
     then g\<lparr>board := (board g)[nat (row coord) :=
                 (board g ! nat (row coord))[nat (col coord) := unit]]\<rparr>
     else g)"

definition remove_dead :: "Game \<Rightarrow> Coord \<Rightarrow> Game" where
  "remove_dead g coord =
    (case get g coord of
       None \<Rightarrow> g
     | Some unit \<Rightarrow>
         if \<not> is_alive unit then
           (let g1 = set_cell g coord None in
            if type unit = AI then
              (if player unit = Attacker then g1\<lparr>attacker_has_ai := False\<rparr>
               else g1\<lparr>defender_has_ai := False\<rparr>)
            else g1)
         else g)"

text \<open>
  \<open>Game.mod_health\<close>: the unit found at the coordinate is modified in place, then
  removed if dead. \<open>get\<close> returned a unit, so the coordinate is valid and writing the
  modified unit back with \<open>set_cell\<close> is the in-place update.
\<close>

definition mod_health :: "Game \<Rightarrow> Coord \<Rightarrow> int \<Rightarrow> Game" where
  "mod_health g coord health_delta =
    (case get g coord of
       None \<Rightarrow> g
     | Some target \<Rightarrow>
         remove_dead (set_cell g coord (Some (unit_mod_health target health_delta))) coord)"

text \<open>\<open>__post_init__\<close>: an empty dim x dim board, then the twelve starting units.\<close>

definition new_unit :: "Player \<Rightarrow> UnitType \<Rightarrow> Unit" where
  "new_unit p t = \<lparr>player = p, type = t, health = 9\<rparr>"

definition post_init :: "Game \<Rightarrow> Game" where
  "post_init g0 =
    (let d = dim (options g0);
         g = g0\<lparr>board := replicate (nat d) (replicate (nat d) None)\<rparr>;
         md = d - 1;
         g = set_cell g \<lparr>row = 0, col = 0\<rparr> (Some (new_unit Defender AI));
         g = set_cell g \<lparr>row = 1, col = 0\<rparr> (Some (new_unit Defender Tech));
         g = set_cell g \<lparr>row = 0, col = 1\<rparr> (Some (new_unit Defender Tech));
         g = set_cell g \<lparr>row = 2, col = 0\<rparr> (Some (new_unit Defender Firewall));
         g = set_cell g \<lparr>row = 0, col = 2\<rparr> (Some (new_unit Defender Firewall));
         g = set_cell g \<lparr>row = 1, col = 1\<rparr> (Some (new_unit Defender Program));
         g = set_cell g \<lparr>row = md, col = md\<rparr> (Some (new_unit Attacker AI));
         g = set_cell g \<lparr>row = md - 1, col = md\<rparr> (Some (new_unit Attacker Virus));
         g = set_cell g \<lparr>row = md, col = md - 1\<rparr> (Some (new_unit Attacker Virus));
         g = set_cell g \<lparr>row = md - 2, col = md\<rparr> (Some (new_unit Attacker Program));
         g = set_cell g \<lparr>row = md, col = md - 2\<rparr> (Some (new_unit Attacker Program));
         g = set_cell g \<lparr>row = md - 1, col = md - 1\<rparr> (Some (new_unit Attacker Firewall))
     in g)"

text \<open>The dataclass constructor with its field defaults, for given options.\<close>

definition new_game :: "Options \<Rightarrow> Game" where
  "new_game opts =
    post_init \<lparr>board = [], next_player = Attacker, turns_played = 0, options = opts,
               attacker_has_ai = True, defender_has_ai = True\<rparr>"

section \<open>Move classification\<close>

text \<open>
  \<open>is_valid_move\<close> returns the triple (valid, move type, error message). Each
  \<open>if\<close> of the source appears once, in the source's order and nesting; where the
  source falls through to the code below, the model continues with the named
  remainder (\<open>from_tech_virus\<close>, \<open>from_attacker_dir\<close>, ...). The unit at the
  destination is read with \<open>the dst_o\<close> only behind the source's own \<open>not is_empty\<close>
  test, on a coordinate already known to be valid.
\<close>

definition is_valid_move :: "Game \<Rightarrow> CoordPair \<Rightarrow> bool \<times> string \<times> string option" where
  "is_valid_move g coords =
    (if \<not> is_valid_coord g (src coords) \<or> \<not> is_valid_coord g (dst coords)
     then (False, ''Invalid move'', Some ''Sorry, src or dest not on board'')
     else
      (let src_o = get g (src coords);
           dst_o = get g (dst coords) in
       if src_o = None \<or> is_empty g (src coords)
       then (False, ''Invalid move'',
             Some ''Sorry, source is empty, no player found at location.'')
       else
        (let s = the src_o in
         if player s \<noteq> next_player g
         then (False, ''Invalid move'',
               Some (''Sorry, this is '' @ player_name (next_player g) @ '''s turn.''))
         else if \<not> is_empty g (dst coords) \<and> src coords = dst coords
         then (True, ''self-destruct'', None)
         else if dst coords \<notin> set (iter_adjacent (src coords))
         then (False, ''Invalid move'',
               Some ''Sorry, this destination is not adjacent to the source.'')
         else
          (let combat_type = (type s = AI \<or> type s = Firewall \<or> type s = Program);
               final = (dst_o = None, ''valid move'', None);
               from_defender_dir =
                 (if player s = Defender then
                    (if combat_type then
                       (if row (src coords) > row (dst coords)
                           \<or> col (src coords) > col (dst coords)
                        then (False, ''Invalid move'',
                              Some (''A defender piece of type: '' @ type_name (type s)
                                    @ '' can only move down or right''))
                        else final)
                     else final)
                  else final);
               from_attacker_dir =
                 (if player s = Attacker then
                    (if combat_type then
                       (if row (src coords) < row (dst coords)
                           \<or> col (src coords) < col (dst coords)
                        then (False, ''Invalid move'',
                              Some (''An attacker piece of type '' @ type_name (type s)
                                    @ '' can only move up or left''))
                        else from_defender_dir)
                     else from_defender_dir)
                  else from_defender_dir);
               from_tech_virus =
                 (if type s = Tech \<or> type s = Virus then
                    (if \<not> is_empty g (dst coords) then
                       (if player (the dst_o) \<noteq> player s then (True, ''attack'', None)
                        else if type s = Tech \<and> player (the dst_o) = player s then
                          (if (type (the dst_o) = AI \<or> type (the dst_o) = Firewall
                               \<or> type (the dst_o) = Program)
                              \<and> health (the dst_o) < 9
                           then (True, ''repair'', None)
                           else from_attacker_dir)
                        else (False, ''Invalid move'',
                              Some ''Sorry, cannot repair, health is already maxed out''))
                     else from_attacker_dir)
                  else from_attacker_dir);
               from_combat =
                 (if combat_type then
                    (if \<not> is_empty g (dst coords) \<and> player (the dst_o) \<noteq> player s
                     then (True, ''attack'', None)
                     else if list_ex (\<lambda>adjacent_coordinate.
                               is_valid_coord g adjacent_coordinate
                               \<and> \<not> is_empty g adjacent_coordinate
                               \<and> player (the (get g adjacent_coordinate)) \<noteq> player s)
                             (iter_adjacent (src coords))
                     then (False, ''Invalid move'',
                           Some ''Sorry, this player is engaged in combat.'')
                     else from_tech_virus)
                  else from_tech_virus)
           in
           if type s = AI \<and> \<not> is_empty g (dst coords) \<and> player (the dst_o) = player s then
             (if (type (the dst_o) = Tech \<or> type (the dst_o) = Virus) \<and> health (the dst_o) < 9
              then (True, ''repair'', None)
              else (False, ''Invalid move'',
                    Some (''Sorry, AI cannot repair player '' @ player_name (player (the dst_o))
                          @ ''.'')))
           else from_combat))))"

section \<open>Move effects\<close>

definition perform_attack :: "Game \<Rightarrow> CoordPair \<Rightarrow> Game" where
  "perform_attack g coords =
    (let s = the (get g (src coords));
         d = the (get g (dst coords));
         dstDamage = damage_table ! type_value (type s) ! type_value (type d);
         srcDamage = damage_table ! type_value (type d) ! type_value (type s);
         g1 = mod_health g (src coords) (- srcDamage)
     in mod_health g1 (dst coords) (- dstDamage))"

definition perform_repair :: "Game \<Rightarrow> CoordPair \<Rightarrow> Game" where
  "perform_repair g coords =
    (let s = the (get g (src coords));
         d = the (get g (dst coords));
         repair = repair_table ! type_value (type s) ! type_value (type d)
     in mod_health g (dst coords) repair)"

definition perform_self_destruction :: "Game \<Rightarrow> CoordPair \<Rightarrow> Game" where
  "perform_self_destruction g coords =
    (let g1 = mod_health g (src coords) (- health (the (get g (src coords))))
     in fold (\<lambda>adjacent_coordinate gi.
               if is_valid_coord gi adjacent_coordinate \<and> \<not> is_empty gi adjacent_coordinate
               then mod_health gi adjacent_coordinate (- 2) else gi)
             (iter_all8_adjacent (src coords)) g1)"

text \<open>
  \<open>perform_move\<close> and \<open>ai_move\<close>. Writing the trace file and printing are outside
  the game state. \<open>perform_move\<close> has no \<open>return\<close> for a valid move of an unknown
  type: the result is then Python's \<open>None\<close>.
\<close>

definition perform_move :: "Game \<Rightarrow> CoordPair \<Rightarrow> Game \<times> (bool \<times> string) option" where
  "perform_move g coords =
    (case is_valid_move g coords of (is_valid, move_type, error) \<Rightarrow>
      if is_valid then
        (if move_type = ''valid move'' then
           (set_cell (set_cell g (dst coords) (get g (src coords))) (src coords) None,
            Some (True, ''Move initiated''))
         else if move_type = ''attack'' then
           (perform_attack g coords, Some (True, ''Attack initiated''))
         else if move_type = ''repair'' then
           (perform_repair g coords, Some (True, ''Repair initiated''))
         else if move_type = ''self-destruct'' then
           (perform_self_destruction g coords, Some (True, ''Self-destruction initiated''))
         else (g, None))
      else (g, Some (False, ''Invalid move'')))"

definition ai_move :: "Game \<Rightarrow> CoordPair \<Rightarrow> Game \<times> bool \<times> string" where
  "ai_move g coords =
    (case is_valid_move g coords of (is_valid, move_type, error) \<Rightarrow>
      if is_valid then
        (if move_type = ''valid move'' then
           (set_cell (set_cell g (dst coords) (get g (src coords))) (src coords) None,
            (True, ''Move initiated''))
         else if move_type = ''attack'' then
           (perform_attack g coords, (True, ''Attack initiated''))
         else if move_type = ''repair'' then
           (perform_repair g coords, (True, ''Repair initiated''))
         else if move_type = ''self-destruct'' then
           (perform_self_destruction g coords, (True, ''Self-destruction initiated''))
         else (g, (False, ''Invalid move'')))
      else (g, (False, ''Invalid move'')))"

definition next_turn :: "Game \<Rightarrow> Game" where
  "next_turn g = g\<lparr>next_player := player_next (next_player g),
                   turns_played := turns_played g + 1\<rparr>"

section \<open>Move enumeration\<close>

definition player_units :: "Game \<Rightarrow> Player \<Rightarrow> (Coord \<times> Unit) list" where
  "player_units g p =
    List.map_filter
      (\<lambda>coord. case get g coord of
                 None \<Rightarrow> None
               | Some unit \<Rightarrow> if player unit = p then Some (coord, unit) else None)
      (iter_rectangle (from_dim (dim (options g))))"

text \<open>
  \<open>move_candidates\<close> tests \<open>if self.is_valid_move(move)\<close>, and \<open>is_valid_move\<close>
  returns a tuple of three items. Python's truth value of a tuple is whether it is
  non-empty, so a tuple of three items is true whatever its items are.
\<close>

definition tuple3_truth :: "bool \<times> string \<times> string option \<Rightarrow> bool" where
  "tuple3_truth t = (case t of (is_valid, move_type, error) \<Rightarrow> True)"

definition move_candidates :: "Game \<Rightarrow> CoordPair list" where
  "move_candidates g =
    concat (map (\<lambda>(s, _).
              map (\<lambda>d. \<lparr>src = s, dst = d\<rparr>)
                  (filter (\<lambda>d. tuple3_truth (is_valid_move g \<lparr>src = s, dst = d\<rparr>))
                          (iter_adjacent s))
              @ [\<lparr>src = s, dst = s\<rparr>])
            (player_units g (next_player g)))"

section \<open>Heuristic e1\<close>

text \<open>
  The scores start as the integer 0 and become floats once a Firewall adds
  \<open>health * 1.5\<close>. Every intermediate value is a multiple of one half far below
  2 ^ 53, hence exact in binary floating point; the model computes in \<open>rat\<close>.
\<close>

definition e1_add :: "Unit \<Rightarrow> rat \<Rightarrow> rat" where
  "e1_add unit score =
    (if type unit = Virus then score + 20 + of_int (health unit) * 2
     else if type unit = Tech then score + 20 + of_int (health unit) * 2
     else if type unit = Firewall then score + 15 + of_int (health unit) * (3 / 2)
     else if type unit = Program then score + 10 + of_int (health unit) * 1
     else if type unit = AI then score + 9999
     else score)"

definition heuristic_1 :: "Game \<Rightarrow> rat" where
  "heuristic_1 g =
    (let attacker_score = fold (\<lambda>(coord, unit). e1_add unit) (player_units g Attacker) 0;
         defender_score = fold (\<lambda>(coord, unit). e1_add unit) (player_units g Defender) 0
     in attacker_score - defender_score)"

section \<open>Scores\<close>

text \<open>
  The walks compare leaf scores with \<open>float("-inf")\<close> and \<open>float("inf")\<close>. A score
  is one of the two infinities or a finite number; every finite Python int or float
  is a rational and Python compares them by value, so the order below is Python's.
\<close>

datatype score = NegInf | Fin rat | PosInf

instantiation score :: linorder
begin

fun less_eq_score :: "score \<Rightarrow> score \<Rightarrow> bool" where
  "less_eq_score NegInf _ = True"
| "less_eq_score _ PosInf = True"
| "less_eq_score (Fin a) (Fin b) = (a \<le> b)"
| "less_eq_score (Fin a) NegInf = False"
| "less_eq_score PosInf NegInf = False"
| "less_eq_score PosInf (Fin b) = False"

definition less_score :: "score \<Rightarrow> score \<Rightarrow> bool" where
  "less_score x y = (x \<le> y \<and> \<not> y \<le> x)"

instance
proof
  fix x y z :: score
  show "(x < y) = (x \<le> y \<and> \<not> y \<le> x)" by (simp add: less_score_def)
  show "x \<le> x" by (cases x) simp_all
  show "x \<le> y \<Longrightarrow> y \<le> z \<Longrightarrow> x \<le> z" by (cases x; cases y; cases z) simp_all
  show "x \<le> y \<Longrightarrow> y \<le> x \<Longrightarrow> x = y" by (cases x; cases y) simp_all
  show "x \<le> y \<or> y \<le> x" by (cases x; cases y) auto
qed

end

section \<open>The search tree\<close>

text \<open>
  The two counters of the \<open>Tree\<close> object that the walks update. The \<open>Tree\<close> record
  below extends this record with the other fields.
\<close>

record TreeCounters =
  total_evals :: int
  stats :: "int \<rightharpoonup> int"

definition calculate_evaluations :: "TreeCounters \<Rightarrow> int \<Rightarrow> TreeCounters" where
  "calculate_evaluations c depth =
    c\<lparr>total_evals := total_evals c + 1,
      stats := (stats c)(depth \<mapsto> (case stats c depth of None \<Rightarrow> 0 | Some n \<Rightarrow> n) + 1)\<rparr>"

text \<open>
  \<open>Node\<close> is the tree of \<open>TreeNode\<close> objects reachable from a node through
  \<open>children\<close>, as a value. Its fields are, in order: id, game, move, e1, e2,
  children, max and depth. The walks write the fields e1 and e2 of the nodes they
  visit; the model returns the node with these fields written, next to the pair the
  source returns and the counters.
\<close>

datatype 'g Node =
  Node int 'g "CoordPair option" "score option" "score option" "'g Node list" bool int

text \<open>
  \<open>Tree.minimax\<close>. The first argument is the leaf heuristic; the source calls
  \<open>node.game.heuristic_1()\<close>. \<open>minimax_max\<close> and \<open>minimax_min\<close> are the two
  \<open>for child in node.children\<close> loops, with the loop variables \<open>max_value\<close>,
  \<open>max_child\<close> (\<open>min_value\<close>, \<open>min_child\<close>) as arguments.
\<close>

fun minimax :: "('g \<Rightarrow> rat) \<Rightarrow> 'g Node \<Rightarrow> TreeCounters
                 \<Rightarrow> (score \<times> 'g Node option) \<times> 'g Node \<times> TreeCounters"
  and minimax_max :: "('g \<Rightarrow> rat) \<Rightarrow> 'g Node list \<Rightarrow> score \<Rightarrow> 'g Node option \<Rightarrow> TreeCounters
                 \<Rightarrow> (score \<times> 'g Node option) \<times> 'g Node list \<times> TreeCounters"
  and minimax_min :: "('g \<Rightarrow> rat) \<Rightarrow> 'g Node list \<Rightarrow> score \<Rightarrow> 'g Node option \<Rightarrow> TreeCounters
                 \<Rightarrow> (score \<times> 'g Node option) \<times> 'g Node list \<times> TreeCounters"
where
  "minimax h (Node i g m a b cs mx d) c =
    (if cs = [] then
       (let c1 = calculate_evaluations c d; v = Fin (h g)
        in ((v, None), Node i g m (Some v) b cs mx d, c1))
     else if mx then
       (case minimax_max h cs NegInf None c of
          ((max_value, max_child), cs', c1) \<Rightarrow>
            ((max_value, max_child), Node i g m (Some max_value) b cs' mx d, c1))
     else
       (case minimax_min h cs PosInf None c of
          ((min_value, min_child), cs', c1) \<Rightarrow>
            ((min_value, min_child), Node i g m (Some min_value) b cs' mx d, c1)))"
| "minimax_max h [] max_value max_child c = ((max_value, max_child), [], c)"
| "minimax_max h (child # rest) max_value max_child c =
    (case minimax h child c of
       ((child_value, _), child', c1) \<Rightarrow>
         (case (if child_value > max_value
                then minimax_max h rest child_value (Some child') c1
                else minimax_max h rest max_value max_child c1) of
            (r, rest', c2) \<Rightarrow> (r, child' # rest', c2)))"
| "minimax_min h [] min_value min_child c = ((min_value, min_child), [], c)"
| "minimax_min h (child # rest) min_value min_child c =
    (case minimax h child c of
       ((child_value, _), child', c1) \<Rightarrow>
         (case (if child_value < min_value
                then minimax_min h rest child_value (Some child') c1
                else minimax_min h rest min_value min_child c1) of
            (r, rest', c2) \<Rightarrow> (r, child' # rest', c2)))"

text \<open>
  \<open>Tree._alpha_beta_pruning\<close>. The first argument is the leaf heuristic; the source
  calls \<open>node.game.heuristic_2()\<close>, which draws random numbers, so its result is a
  parameter here. A leaf returns itself as best node. In the loops the \<open>break\<close>
  leaves the remaining children unvisited.
\<close>

fun alpha_beta_pruning_rec :: "('g \<Rightarrow> rat) \<Rightarrow> 'g Node \<Rightarrow> score \<Rightarrow> score \<Rightarrow> TreeCounters
                 \<Rightarrow> (score \<times> 'g Node option) \<times> 'g Node \<times> TreeCounters"
  and alpha_beta_max :: "('g \<Rightarrow> rat) \<Rightarrow> 'g Node list \<Rightarrow> score \<Rightarrow> score \<Rightarrow> 'g Node option
                 \<Rightarrow> TreeCounters \<Rightarrow> (score \<times> 'g Node option) \<times> 'g Node list \<times> TreeCounters"
  and alpha_beta_min :: "('g \<Rightarrow> rat) \<Rightarrow> 'g Node list \<Rightarrow> score \<Rightarrow> score \<Rightarrow> 'g Node option
                 \<Rightarrow> TreeCounters \<Rightarrow> (score \<times> 'g Node option) \<times> 'g Node list \<times> TreeCounters"
where
  "alpha_beta_pruning_rec h (Node i g m a b cs mx d) alpha beta c =
    (if cs = [] then
       (let c1 = calculate_evaluations c d; v = Fin (h g);
            node' = Node i g m a (Some v) cs mx d
        in ((v, Some node'), node', c1))
     else if mx then
       (case alpha_beta_max h cs alpha beta None c of
          ((alpha', best_node), cs', c1) \<Rightarrow>
            ((alpha', best_node), Node i g m a (Some alpha') cs' mx d, c1))
     else
       (case alpha_beta_min h cs alpha beta None c of
          ((beta', best_node), cs', c1) \<Rightarrow>
            ((beta', best_node), Node i g m a (Some beta') cs' mx d, c1)))"
| "alpha_beta_max h [] alpha beta best_node c = ((alpha, best_node), [], c)"
| "alpha_beta_max h (child # rest) alpha beta best_node c =
    (case alpha_beta_pruning_rec h child alpha beta c of
       ((new_alpha, _), child', c1) \<Rightarrow>
         (let (alpha', best_node') =
                (if new_alpha > alpha then (new_alpha, Some child') else (alpha, best_node))
          in if beta \<le> alpha' then ((alpha', best_node'), child' # rest, c1)
             else (case alpha_beta_max h rest alpha' beta best_node' c1 of
                     (r, rest', c2) \<Rightarrow> (r, child' # rest', c2))))"
| "alpha_beta_min h [] alpha beta best_node c = ((beta, best_node), [], c)"
| "alpha_beta_min h (child # rest) alpha beta best_node c =
    (case alpha_beta_pruning_rec h child alpha beta c of
       ((new_beta, _), child', c1) \<Rightarrow>
         (let (beta', best_node') =
                (if new_beta < beta then (new_beta, Some child') else (beta, best_node))
          in if beta' \<le> alpha then ((beta', best_node'), child' # rest, c1)
             else (case alpha_beta_min h rest alpha beta' best_node' c1 of
                     (r, rest', c2) \<Rightarrow> (r, child' # rest', c2))))"

definition alpha_beta_pruning :: "('g \<Rightarrow> rat) \<Rightarrow> 'g Node \<Rightarrow> TreeCounters
                 \<Rightarrow> (score \<times> 'g Node option) \<times> 'g Node \<times> TreeCounters" where
  "alpha_beta_pruning h node c = alpha_beta_pruning_rec h node NegInf PosInf c"

text \<open>
  The optimal (minimax) value of a tree, in the words of the specification: a
  childless node's score is the leaf heuristic of its state, a maximizing node's
  score is the maximum of its children's scores, a minimizing node's the minimum.
\<close>

fun optimal_value :: "('g \<Rightarrow> rat) \<Rightarrow> 'g Node \<Rightarrow> score" where
  "optimal_value h (Node i g m a b cs mx d) =
    (if cs = [] then Fin (h g)
     else if mx then Max (optimal_value h ` set cs)
     else Min (optimal_value h ` set cs))"

text \<open>The number of leaves of a tree.\<close>

fun leaf_count :: "'g Node \<Rightarrow> int" where
  "leaf_count (Node i g m a b cs mx d) =
    (if cs = [] then 1 else sum_list (map leaf_count cs))"

text \<open>
  What a call of \<open>_alpha_beta_pruning\<close> with window \<open>alpha < beta\<close> returns,
  relative to the optimal value \<open>v\<close> of the node: the value itself inside the
  window, and something on the same side of the window outside it.
\<close>

definition fail_hard :: "score \<Rightarrow> score \<Rightarrow> score \<Rightarrow> score \<Rightarrow> bool" where
  "fail_hard alpha beta v r =
    ((v \<le> alpha \<longrightarrow> r \<le> alpha) \<and> (beta \<le> v \<longrightarrow> beta \<le> r)
     \<and> (alpha < v \<and> v < beta \<longrightarrow> r = v))"

section \<open>Building the tree\<close>

text \<open>
  \<open>TreeNode\<close> objects are shared between \<open>Tree.nodes\<close> (by id) and the
  \<open>children\<close> lists of their parents, so they live in a store: \<open>objects\<close> holds
  every node ever created, a reference is an index into it, and a new node is
  appended. \<open>depth\<close> is \<open>None\<close> until \<open>add_node\<close> sets it.
\<close>

datatype py_error = KeyError | TypeError

type_synonym addr = nat


record 'g TreeNode =
  node_id :: int
  game :: 'g
  move :: "CoordPair option"
  e1 :: "score option"
  e2 :: "score option"
  children :: "addr list"
  is_max :: bool
  depth :: "int option"

record 'g Tree = TreeCounters +
  root :: "addr option"
  nodes :: "int \<rightharpoonup> addr"
  tree_depth :: int
  objects :: "'g TreeNode list"

definition new_tree :: "'g Tree" where
  "new_tree = \<lparr>total_evals = 0, stats = Map.empty, root = None, nodes = Map.empty,
                tree_depth = 0, objects = []\<rparr>"

text \<open>
  \<open>Tree.add_node\<close>, statement by statement. \<open>self.nodes[parent]\<close> raises
  \<open>KeyError\<close> for an unknown parent id. When the parent id is the id being added,
  \<open>self.nodes[parent]\<close> is, after the store into \<open>self.nodes\<close>, the new node
  itself, whose depth is still \<open>None\<close>: \<open>None + 1\<close> raises \<open>TypeError\<close>.
\<close>

definition add_node ::
  "'g Tree \<Rightarrow> int \<Rightarrow> 'g \<Rightarrow> CoordPair option \<Rightarrow> score option \<Rightarrow> score option
     \<Rightarrow> int option \<Rightarrow> py_error + 'g Tree" where
  "add_node t i g mv ev1 ev2 parent =
    (case (case parent of
             None \<Rightarrow> Inr True
           | Some p \<Rightarrow> (case nodes t p of
                          None \<Rightarrow> Inl KeyError
                        | Some pa \<Rightarrow> Inr (\<not> is_max (objects t ! pa)))) of
       Inl e \<Rightarrow> Inl e
     | Inr max_value \<Rightarrow>
         (let node = length (objects t);
              t1 = t\<lparr>objects := objects t @
                     [\<lparr>node_id = i, game = g, move = mv, e1 = ev1, e2 = ev2, children = [],
                       is_max = max_value, depth = None\<rparr>]\<rparr>;
              t2 = t1\<lparr>nodes := (nodes t1)(i \<mapsto> node)\<rparr>
          in case parent of
               None \<Rightarrow>
                 (let t3 = t2\<lparr>root := Some node\<rparr>
                  in Inr (t3\<lparr>objects := (objects t3)
                            [node := (objects t3 ! node)\<lparr>depth := Some 1\<rparr>]\<rparr>))
             | Some p \<Rightarrow>
                 (case nodes t2 p of
                    None \<Rightarrow> Inl KeyError
                  | Some parent_node \<Rightarrow>
                      (case depth (objects t2 ! parent_node) of
                         None \<Rightarrow> Inl TypeError
                       | Some pd \<Rightarrow>
                           (let t3 = t2\<lparr>objects := (objects t2)
                                      [node := (objects t2 ! node)\<lparr>depth := Some (pd + 1)\<rparr>]\<rparr>
                            in Inr (t3\<lparr>objects := (objects t3)
                                     [parent_node := (objects t3 ! parent_node)
                                        \<lparr>children := children (objects t3 ! parent_node)
                                                      @ [node]\<rparr>]\<rparr>))))))"

text \<open>A sequence of \<open>add_node\<close> calls, stopping at the first exception.\<close>

record 'g add_node_call =
  call_id :: int
  call_game :: 'g
  call_move :: "CoordPair option"
  call_e1 :: "score option"
  call_e2 :: "score option"
  call_parent :: "int option"

fun add_nodes :: "'g Tree \<Rightarrow> 'g add_node_call list \<Rightarrow> py_error + 'g Tree" where
  "add_nodes t [] = Inr t"
| "add_nodes t (c # cs) =
    (case add_node t (call_id c) (call_game c) (call_move c) (call_e1 c) (call_e2 c)
            (call_parent c) of
       Inl e \<Rightarrow> Inl e
     | Inr t' \<Rightarrow> add_nodes t' cs)"

text \<open>
  The invariant of a built tree: the root has depth 1 and is maximizing; ids map to
  existing nodes; every node has a depth, and each of its children exists, is one
  level deeper and has the opposite maximizing flag; and every node was either added
  as a root (depth 1, maximizing) or is a child of some node.
\<close>

definition tree_invariant :: "'g Tree \<Rightarrow> bool" where
  "tree_invariant t =
    ((case root t of
        None \<Rightarrow> True
      | Some r \<Rightarrow> r < length (objects t) \<and> depth (objects t ! r) = Some 1
                   \<and> is_max (objects t ! r))
     \<and> (\<forall>a \<in> ran (nodes t). a < length (objects t))
     \<and> list_all (\<lambda>p.
          (case depth p of
             None \<Rightarrow> False
           | Some pd \<Rightarrow>
               list_all (\<lambda>c. c < length (objects t)
                              \<and> depth (objects t ! c) = Some (pd + 1)
                              \<and> is_max (objects t ! c) = (\<not> is_max p))
                        (children p)))
          (objects t)
     \<and> list_all (\<lambda>a. (depth (objects t ! a) = Some 1 \<and> is_max (objects t ! a))
                      \<or> list_ex (\<lambda>p. a \<in> set (children p)) (objects t))
                 [0..<length (objects t)])"

section \<open>Well-formed boards\<close>

text \<open>
  The board the constructor builds has \<open>dim\<close> rows of \<open>dim\<close> cells, and no operation
  changes that shape. On such a board every cell read of the model is in range, as it
  is in the source.
\<close>

definition wf_board :: "Game \<Rightarrow> bool" where
  "wf_board g =
    (length (board g) = nat (dim (options g))
     \<and> list_all (\<lambda>r. length r = nat (dim (options g))) (board g))"

text \<open>
  The data model keeps the health of every unit on the board between 1 and 9: the
  constructor gives 9, \<open>mod_health\<close> clamps into 0..9, and \<open>remove_dead\<close> takes a
  unit with health 0 off the board.
\<close>

definition healths_in_range :: "Game \<Rightarrow> bool" where
  "healths_in_range g =
    list_all (list_all (\<lambda>cell. case cell of
                                  None \<Rightarrow> True
                                | Some u \<Rightarrow> 0 < health u \<and> health u \<le> 9))
             (board g)"

text \<open>
  What \<open>Game.mod_health\<close> leaves in a cell: nothing if the cell was empty or the
  modified unit is dead, the modified unit otherwise.
\<close>

definition cell_after :: "int \<Rightarrow> Unit option \<Rightarrow> Unit option" where
  "cell_after delta cell =
    (case cell of
       None \<Rightarrow> None
     | Some u \<Rightarrow> if is_alive (unit_mod_health u delta)
                then Some (unit_mod_health u delta) else None)"

section \<open>Example positions\<close>

text \<open>
  The starting position with a Defender Tech placed at C3, next to the Attacker
  Program at C4; the Attacker is to move.
\<close>

definition engaged_example :: Game where
  "engaged_example =
    set_cell (new_game default_options) \<lparr>row = 2, col = 3\<rparr> (Some (new_unit Defender Tech))"

text \<open>The starting position with an Attacker Virus placed at B2, next to the Defender
  Program at B1.\<close>

definition virus_example :: Game where
  "virus_example =
    set_cell (new_game default_options) \<lparr>row = 1, col = 2\<rparr> (Some (new_unit Attacker Virus))"

text \<open>The starting position with the Attacker Virus at D4 damaged to health 5; the
  Attacker AI at E4 is next to it.\<close>

definition repair_example :: Game where
  "repair_example =
    set_cell (new_game default_options) \<lparr>row = 3, col = 4\<rparr>
      (Some \<lparr>player = Attacker, type = Virus, health = 5\<rparr>)"

text \<open>
  A tree of depth 3 on which alpha-beta prunes: under the maximizing root, a
  minimizing node with leaves 3 and 5, then a minimizing node with leaves 2 and 9.
  The game of a leaf is its score, and the leaf heuristic is the identity.
\<close>

definition empty_counters :: TreeCounters where
  "empty_counters = \<lparr>total_evals = 0, stats = Map.empty\<rparr>"

definition leaf :: "int \<Rightarrow> rat \<Rightarrow> int \<Rightarrow> rat Node" where
  "leaf i v d = Node i v None None None [] (odd d) d"

definition pruning_example :: "rat Node" where
  "pruning_example =
    Node 0 0 None None None
      [Node 1 0 None None None [leaf 3 3 3, leaf 4 5 3] False 2,
       Node 2 0 None None None [leaf 5 2 3, leaf 6 9 3] False 2]
      True 1"

text \<open>
  Four \<open>add_node\<close> calls; the last one reuses the id 1 for a node below node 2.
\<close>

definition call :: "int \<Rightarrow> int option \<Rightarrow> unit add_node_call" where
  "call i p = \<lparr>call_id = i, call_game = (), call_move = None, call_e1 = None,
               call_e2 = None, call_parent = p\<rparr>"

definition example_calls :: "unit add_node_call list" where
  "example_calls = [call 0 None, call 1 (Some 0), call 2 (Some 1), call 1 (Some 2)]"

section \<open>Board lemmas\<close>

lemma wf_board_row: "wf_board g \<Longrightarrow> i < nat (dim (options g)) \<Longrightarrow> length (board g ! i) = nat (dim (options g))"
  by (simp add: wf_board_def list_all_length)

lemma is_valid_coord_iff:
  "is_valid_coord g c = (0 \<le> row c \<and> row c < dim (options g) \<and> 0 \<le> col c \<and> col c < dim (options g))"
  by (auto simp: is_valid_coord_def)

lemma is_empty_get: "is_valid_coord g c \<Longrightarrow> is_empty g c = (get g c = None)"
  by (simp add: is_empty_def get_def)

lemma options_set_cell [simp]: "options (set_cell g c u) = options g"
  and next_player_set_cell [simp]: "next_player (set_cell g c u) = next_player g"
  and turns_played_set_cell [simp]: "turns_played (set_cell g c u) = turns_played g"
  and attacker_has_ai_set_cell [simp]: "attacker_has_ai (set_cell g c u) = attacker_has_ai g"
  and defender_has_ai_set_cell [simp]: "defender_has_ai (set_cell g c u) = defender_has_ai g"
  by (simp_all add: set_cell_def)

lemma is_valid_coord_set_cell [simp]: "is_valid_coord (set_cell g c u) c' = is_valid_coord g c'"
  by (simp add: is_valid_coord_def)

lemma is_valid_coord_board_update [simp]:
  "is_valid_coord (g\<lparr>board := b\<rparr>) c = is_valid_coord g c"
  by (simp add: is_valid_coord_def)

lemma wf_board_set_cell: "wf_board g \<Longrightarrow> wf_board (set_cell g c u)"
  by (auto simp: wf_board_def set_cell_def list_all_length nth_list_update is_valid_coord_iff)

lemma coord_eq_iff: "(c = c') = (row c = row c' \<and> col c = col c')" for c c' :: Coord
  by auto

lemma get_set_cell:
  assumes "wf_board g"
  shows "get (set_cell g c u) c' = (if c' = c \<and> is_valid_coord g c then u else get g c')"
proof (cases "is_valid_coord g c")
  case False
  then show ?thesis by (simp add: set_cell_def)
next
  case vc: True
  show ?thesis
  proof (cases "is_valid_coord g c'")
    case False
    then show ?thesis using vc by (auto simp: get_def)
  next
    case vc': True
    have r: "nat (row c) < length (board g)" "nat (row c') < length (board g)"
      using vc vc' assms by (auto simp: is_valid_coord_iff wf_board_def)
    have k: "nat (col c) < length (board g ! nat (row c))"
      using vc assms wf_board_row[of g "nat (row c)"] by (auto simp: is_valid_coord_iff)
    have e: "(nat (row c) = nat (row c')) = (row c = row c')" "(nat (col c) = nat (col c')) = (col c = col c')"
      using vc vc' by (auto simp: is_valid_coord_iff)
    show ?thesis using vc vc' r k e
      by (cases c; cases c') (auto simp: get_def set_cell_def nth_list_update)
  qed
qed

lemma dst_adjacent_neq: "d \<in> set (iter_adjacent s) \<Longrightarrow> s \<noteq> d"
  by (cases s) (auto simp: iter_adjacent_def)

lemma get_valid: "get g c = Some u \<Longrightarrow> is_valid_coord g c"
  by (simp add: get_def split: if_splits)

lemma get_flag_update [simp]:
  "get (g\<lparr>attacker_has_ai := a\<rparr>) c = get g c"
  "get (g\<lparr>defender_has_ai := a\<rparr>) c = get g c"
  by (simp_all add: get_def is_valid_coord_def)

lemma wf_board_flag_update [simp]:
  "wf_board (g\<lparr>attacker_has_ai := a\<rparr>) = wf_board g"
  "wf_board (g\<lparr>defender_has_ai := a\<rparr>) = wf_board g"
  by (simp_all add: wf_board_def)

lemma remove_dead_frame [simp]:
  "options (remove_dead g c) = options g"
  "next_player (remove_dead g c) = next_player g"
  "turns_played (remove_dead g c) = turns_played g"
  by (simp_all add: remove_dead_def Let_def split: option.splits)

lemma wf_board_remove_dead: "wf_board g \<Longrightarrow> wf_board (remove_dead g c)"
  by (simp add: remove_dead_def Let_def wf_board_set_cell split: option.splits)

lemma get_remove_dead:
  assumes wf: "wf_board g"
  shows "get (remove_dead g c) c' =
     (if c' = c then (case get g c of None \<Rightarrow> None
                      | Some u \<Rightarrow> if is_alive u then Some u else None)
      else get g c')"
proof (cases "get g c")
  case None
  then show ?thesis by (simp add: remove_dead_def)
next
  case (Some u)
  have v: "is_valid_coord g c" using Some by (rule get_valid)
  show ?thesis
  proof (cases "is_alive u")
    case True
    then show ?thesis using Some by (simp add: remove_dead_def)
  next
    case False
    have "get (set_cell g c None) c' = (if c' = c then None else get g c')"
      using wf v by (simp add: get_set_cell)
    then show ?thesis using Some False by (auto simp: remove_dead_def Let_def)
  qed
qed

lemma mod_health_frame [simp]:
  "options (mod_health g c d) = options g"
  "next_player (mod_health g c d) = next_player g"
  "turns_played (mod_health g c d) = turns_played g"
  by (simp_all add: mod_health_def split: option.splits)

lemma is_valid_coord_mod_health [simp]:
  "is_valid_coord (mod_health g c d) c' = is_valid_coord g c'"
  by (simp add: is_valid_coord_def)

lemma wf_board_mod_health: "wf_board g \<Longrightarrow> wf_board (mod_health g c d)"
  by (simp add: mod_health_def wf_board_remove_dead wf_board_set_cell split: option.splits)

lemma get_mod_health:
  "wf_board g \<Longrightarrow>
   get (mod_health g c d) c' = (if c' = c then cell_after d (get g c) else get g c')"
proof (cases "get g c")
  case None
  then show ?thesis by (simp add: mod_health_def cell_after_def)
next
  case (Some t)
  assume wf: "wf_board g"
  let ?g1 = "set_cell g c (Some (unit_mod_health t d))"
  have v: "is_valid_coord g c" using Some by (rule get_valid)
  have wf1: "wf_board ?g1" using wf by (rule wf_board_set_cell)
  have g1: "get ?g1 c = Some (unit_mod_health t d)" using wf v by (simp add: get_set_cell)
  have "get (remove_dead ?g1 c) c' =
          (if c' = c then (if is_alive (unit_mod_health t d) then Some (unit_mod_health t d) else None)
           else get g c')"
    using wf v by (simp add: get_remove_dead [OF wf1] g1 get_set_cell)
  then show ?thesis using Some by (simp add: mod_health_def cell_after_def)
qed

lemma sd_step_get:
  assumes wf: "wf_board g"
  shows "get (if is_valid_coord g a \<and> \<not> is_empty g a then mod_health g a d else g) c
       = (if c = a then cell_after d (get g a) else get g c)"
proof (cases "is_valid_coord g a")
  case False
  then have "get g a = None" by (simp add: get_def)
  then show ?thesis using False by (simp add: cell_after_def)
next
  case True
  then show ?thesis using wf by (auto simp: is_empty_get get_mod_health cell_after_def)
qed

lemma sd_step_wf:
  "wf_board g \<Longrightarrow>
   wf_board (if is_valid_coord g a \<and> \<not> is_empty g a then mod_health g a d else g)"
  by (simp add: wf_board_mod_health)

lemma fold_sd_step:
  assumes "wf_board g" and "distinct cs"
  shows "wf_board (fold (\<lambda>a gi. if is_valid_coord gi a \<and> \<not> is_empty gi a
                                 then mod_health gi a d else gi) cs g)
       \<and> get (fold (\<lambda>a gi. if is_valid_coord gi a \<and> \<not> is_empty gi a
                              then mod_health gi a d else gi) cs g) c
         = (if c \<in> set cs then cell_after d (get g c) else get g c)"
  using assms
proof (induction cs arbitrary: g)
  case Nil
  then show ?case by simp
next
  case (Cons a cs)
  let ?g1 = "if is_valid_coord g a \<and> \<not> is_empty g a then mod_health g a d else g"
  have wf1: "wf_board ?g1" using Cons.prems(1) by (rule sd_step_wf)
  have d: "distinct cs" and na: "a \<notin> set cs" using Cons.prems(2) by simp_all
  have g1: "get ?g1 c = (if c = a then cell_after d (get g a) else get g c)"
    using Cons.prems(1) by (rule sd_step_get)
  from Cons.IH [OF wf1 d] g1 na show ?case by auto
qed

lemma distinct_iter_all8_adjacent: "distinct (iter_all8_adjacent c)"
  by (cases c) (simp add: iter_all8_adjacent_def)

lemma self_not_in_all8: "c \<notin> set (iter_all8_adjacent c)"
  by (cases c) (simp add: iter_all8_adjacent_def)

lemma healths_in_rangeD:
  assumes "wf_board g" and "healths_in_range g" and "get g c = Some u"
  shows "0 < health u" and "health u \<le> 9"
proof -
  have v: "is_valid_coord g c" using assms(3) by (rule get_valid)
  have r: "nat (row c) < length (board g)"
    using v assms(1) by (auto simp: is_valid_coord_iff wf_board_def)
  have k: "nat (col c) < length (board g ! nat (row c))"
    using v assms(1) wf_board_row [of g "nat (row c)"] by (auto simp: is_valid_coord_iff)
  have "board g ! nat (row c) ! nat (col c) = Some u"
    using assms(3) v by (simp add: get_def)
  with assms(2) r k have "0 < health u \<and> health u \<le> 9"
    by (auto simp: healths_in_range_def list_all_length split: option.splits)
  then show "0 < health u" and "health u \<le> 9" by simp_all
qed

lemma is_valid_move_self_destruct:
  assumes "is_valid_move g coords = (True, ''self-destruct'', e)"
  shows "src coords = dst coords \<and> (\<exists>s. get g (src coords) = Some s \<and> player s = next_player g)"
  using assms
  by (auto simp: is_valid_move_def Let_def split: if_splits)

lemma is_valid_move_repair:
  assumes "is_valid_move g coords = (True, ''repair'', e)"
  shows "\<exists>s d. get g (src coords) = Some s \<and> get g (dst coords) = Some d
          \<and> src coords \<noteq> dst coords \<and> player s = next_player g
          \<and> player d = player s \<and> health d < 9
          \<and> (type s = AI \<and> (type d = Tech \<or> type d = Virus)
               \<or> type s = Tech \<and> (type d = AI \<or> type d = Firewall \<or> type d = Program))"
proof -
  from assms have v: "is_valid_coord g (src coords)" "is_valid_coord g (dst coords)"
    by (auto simp: is_valid_move_def split: if_splits)
  from assms have ne: "src coords \<noteq> dst coords"
    using dst_adjacent_neq [of "dst coords" "src coords"]
    by (auto simp: is_valid_move_def Let_def is_empty_get v split: if_splits)
  from assms v ne show ?thesis
    by (auto simp: is_valid_move_def Let_def is_empty_get split: if_splits)
qed

lemma is_valid_move_attack:
  assumes "is_valid_move g coords = (True, ''attack'', e)"
  shows "\<exists>s d. get g (src coords) = Some s \<and> get g (dst coords) = Some d
          \<and> src coords \<noteq> dst coords \<and> player s = next_player g
          \<and> player d \<noteq> player s"
proof -
  from assms have v: "is_valid_coord g (src coords)" "is_valid_coord g (dst coords)"
    by (auto simp: is_valid_move_def split: if_splits)
  from assms have ne: "src coords \<noteq> dst coords"
    using dst_adjacent_neq [of "dst coords" "src coords"]
    by (auto simp: is_valid_move_def Let_def is_empty_get v split: if_splits)
  from assms v ne show ?thesis
    by (auto simp: is_valid_move_def Let_def is_empty_get split: if_splits)
qed

lemma ai_move_state: "fst (ai_move g coords) = fst (perform_move g coords)"
  by (cases "is_valid_move g coords") (simp add: ai_move_def perform_move_def)

section \<open>Invariants of the game state\<close>

text \<open>
  The constructor builds a board of the right shape whose units have health in 1..9,
  and \<open>perform_move\<close> keeps both, whatever the move.
\<close>

lemma healths_in_range_iff:
  assumes wf: "wf_board g"
  shows "healths_in_range g = (\<forall>c u. get g c = Some u \<longrightarrow> 0 < health u \<and> health u \<le> 9)"
proof
  assume "healths_in_range g"
  then show "\<forall>c u. get g c = Some u \<longrightarrow> 0 < health u \<and> health u \<le> 9"
    using wf healths_in_rangeD by blast
next
  assume a: "\<forall>c u. get g c = Some u \<longrightarrow> 0 < health u \<and> health u \<le> 9"
  have "case board g ! r ! k of None \<Rightarrow> True | Some u \<Rightarrow> 0 < health u \<and> health u \<le> 9"
    if r: "r < length (board g)" and k: "k < length (board g ! r)" for r k
  proof (cases "board g ! r ! k")
    case None
    then show ?thesis by simp
  next
    case (Some u)
    have d: "length (board g) = nat (dim (options g))" "length (board g ! r) = nat (dim (options g))"
      using wf r wf_board_row [of g r] by (simp_all add: wf_board_def)
    let ?c = "\<lparr>row = int r, col = int k\<rparr>"
    have "is_valid_coord g ?c" using r k d by (auto simp: is_valid_coord_iff)
    then have "get g ?c = Some u" using Some by (simp add: get_def)
    with a show ?thesis using Some by simp
  qed
  then show "healths_in_range g"
    by (simp add: healths_in_range_def list_all_length)
qed

lemma wf_board_post_init: "wf_board (post_init g0)"
proof -
  have "wf_board (g0\<lparr>board := replicate (nat (dim (options g0)))
                              (replicate (nat (dim (options g0))) None)\<rparr>)"
    by (simp add: wf_board_def list_all_length)
  then show ?thesis
    by (simp add: post_init_def Let_def wf_board_set_cell)
qed

lemma wf_board_new_game: "wf_board (new_game opts)"
  by (simp add: new_game_def wf_board_post_init)

lemma healths_in_range_set_cell:
  assumes "wf_board g" "healths_in_range g"
    and "case u of None \<Rightarrow> True | Some x \<Rightarrow> 0 < health x \<and> health x \<le> 9"
  shows "healths_in_range (set_cell g c u)"
  using assms
  by (auto simp: healths_in_range_iff wf_board_set_cell get_set_cell split: if_splits)

lemma healths_in_range_post_init: "healths_in_range (post_init g0)"
proof -
  let ?e = "g0\<lparr>board := replicate (nat (dim (options g0)))
                              (replicate (nat (dim (options g0))) None)\<rparr>"
  have w: "wf_board ?e" by (simp add: wf_board_def list_all_length)
  have h: "healths_in_range ?e" by (simp add: healths_in_range_def list_all_length)
  have step: "wf_board (set_cell g c (Some (new_unit p ty)))
              \<and> healths_in_range (set_cell g c (Some (new_unit p ty)))"
    if "wf_board g \<and> healths_in_range g" for g c p ty
    using that by (simp add: wf_board_set_cell healths_in_range_set_cell new_unit_def)
  show ?thesis
    unfolding post_init_def Let_def
    using w h by (intro step [THEN conjunct2] step conjI)
qed

lemma healths_in_range_new_game: "healths_in_range (new_game opts)"
  by (simp add: new_game_def healths_in_range_post_init)

lemma healths_in_range_mod_health:
  assumes "wf_board g" "healths_in_range g"
  shows "healths_in_range (mod_health g c d)"
proof -
  have "0 < health u' \<and> health u' \<le> 9" if "cell_after d (Some u) = Some u'" for u u'
    using that
    by (auto simp: cell_after_def unit_mod_health_def is_alive_def Let_def split: if_splits)
  then show ?thesis
    using assms
    by (auto simp: healths_in_range_iff wf_board_mod_health get_mod_health cell_after_def
             split: if_splits option.splits)
qed

lemma fold_sd_step_invariants:
  assumes "wf_board g" "healths_in_range g"
  shows "wf_board (fold (\<lambda>a gi. if is_valid_coord gi a \<and> \<not> is_empty gi a
                                 then mod_health gi a d else gi) cs g)
       \<and> healths_in_range (fold (\<lambda>a gi. if is_valid_coord gi a \<and> \<not> is_empty gi a
                                 then mod_health gi a d else gi) cs g)"
  using assms
  by (induction cs arbitrary: g) (simp_all add: wf_board_mod_health healths_in_range_mod_health)

lemma perform_move_invariants:
  assumes wf: "wf_board g" and hs: "healths_in_range g"
  shows "wf_board (fst (perform_move g coords))
       \<and> healths_in_range (fst (perform_move g coords))"
proof -
  obtain v mt e where r: "is_valid_move g coords = (v, mt, e)"
    by (metis prod.collapse)
  have mv: "wf_board (set_cell (set_cell g (dst coords) (get g (src coords))) (src coords) None)
          \<and> healths_in_range
              (set_cell (set_cell g (dst coords) (get g (src coords))) (src coords) None)"
  proof -
    have 1: "case get g (src coords) of None \<Rightarrow> True | Some x \<Rightarrow> 0 < health x \<and> health x \<le> 9"
      using wf hs by (auto simp: healths_in_range_iff split: option.splits)
    have 2: "healths_in_range (set_cell g (dst coords) (get g (src coords)))"
      using wf hs 1 by (rule healths_in_range_set_cell)
    show ?thesis
      using wf 2 by (simp add: wf_board_set_cell healths_in_range_set_cell)
  qed
  have at: "wf_board (perform_attack g coords) \<and> healths_in_range (perform_attack g coords)"
    using wf hs by (simp add: perform_attack_def Let_def wf_board_mod_health
        healths_in_range_mod_health)
  have rp: "wf_board (perform_repair g coords) \<and> healths_in_range (perform_repair g coords)"
    using wf hs by (simp add: perform_repair_def Let_def wf_board_mod_health
        healths_in_range_mod_health)
  have sd: "wf_board (perform_self_destruction g coords)
          \<and> healths_in_range (perform_self_destruction g coords)"
    unfolding perform_self_destruction_def Let_def
    using wf hs
    by (intro fold_sd_step_invariants wf_board_mod_health healths_in_range_mod_health)
  show ?thesis
    using r wf hs mv at rp sd by (simp add: perform_move_def)
qed

section \<open>Rejected moves change nothing\<close>

text \<open>
  Claim C10. When \<open>is_valid_move\<close> classifies a move as invalid (first component
  \<open>False\<close>), both \<open>perform_move\<close> and \<open>ai_move\<close> return the failure pair
  \<open>(False, "Invalid move")\<close> and the game state they leave is the state they were
  given: board, side to move, turn counter and both has-AI flags.
\<close>

theorem invalid_move_leaves_state:
  assumes "wf_board g" and "\<not> fst (is_valid_move g coords)"
  shows "perform_move g coords = (g, Some (False, ''Invalid move''))
         \<and> ai_move g coords = (g, (False, ''Invalid move''))"
  using assms by (cases "is_valid_move g coords") (simp add: perform_move_def ai_move_def)

theorem invalid_move_leaves_state_witness:
  "wf_board (new_game default_options)
   \<and> \<not> fst (is_valid_move (new_game default_options)
            \<lparr>src = \<lparr>row = 4, col = 4\<rparr>, dst = \<lparr>row = 2, col = 2\<rparr>\<rparr>)
   \<and> perform_move (new_game default_options)
         \<lparr>src = \<lparr>row = 4, col = 4\<rparr>, dst = \<lparr>row = 2, col = 2\<rparr>\<rparr>
       = (new_game default_options, Some (False, ''Invalid move''))
   \<and> ai_move (new_game default_options)
         \<lparr>src = \<lparr>row = 4, col = 4\<rparr>, dst = \<lparr>row = 2, col = 2\<rparr>\<rparr>
       = (new_game default_options, (False, ''Invalid move''))"
proof -
  have w: "wf_board (new_game default_options)"
    by code_simp
  have h: "\<not> fst (is_valid_move (new_game default_options)
            \<lparr>src = \<lparr>row = 4, col = 4\<rparr>, dst = \<lparr>row = 2, col = 2\<rparr>\<rparr>)"
    by code_simp
  from invalid_move_leaves_state [OF w h] w h show ?thesis by simp
qed

section \<open>Units engaged in combat\<close>

text \<open>
  Claim C3. Take a unit of type AI, Firewall or Program that belongs to the side to
  move and has an enemy unit on one of its four orthogonal neighbours. Then
  \<open>is_valid_move\<close> rejects every move of that unit to an empty adjacent cell of the
  board, with the message that the player is engaged in combat, and it classifies
  every move of that unit onto an adjacent cell holding an enemy as an attack.
\<close>

theorem engaged_unit_cannot_move_but_can_attack:
  assumes wf: "wf_board g"
    and s: "get g (src coords) = Some s" "player s = next_player g"
    and ty: "type s = AI \<or> type s = Firewall \<or> type s = Program"
    and enemy: "e \<in> set (iter_adjacent (src coords))" "get g e = Some eu" "player eu \<noteq> player s"
    and adj: "dst coords \<in> set (iter_adjacent (src coords))"
    and vd: "is_valid_coord g (dst coords)"
  shows "(get g (dst coords) = None \<longrightarrow>
            is_valid_move g coords
              = (False, ''Invalid move'', Some ''Sorry, this player is engaged in combat.''))
       \<and> (\<forall>du. get g (dst coords) = Some du \<and> player du \<noteq> player s \<longrightarrow>
            is_valid_move g coords = (True, ''attack'', None))"
proof -
  have vs: "is_valid_coord g (src coords)" using s(1) by (auto simp: get_def split: if_splits)
  have ve: "is_valid_coord g e" using enemy(2) by (auto simp: get_def split: if_splits)
  have ne: "src coords \<noteq> dst coords" using adj by (rule dst_adjacent_neq)
  have eng: "list_ex (\<lambda>a. is_valid_coord g a \<and> \<not> is_empty g a
                \<and> player (the (get g a)) \<noteq> player s) (iter_adjacent (src coords))"
    unfolding list_ex_iff using enemy ve by (auto simp: is_empty_get intro!: bexI[of _ e])
  show ?thesis
    using vs vd s ty ne adj eng
    by (auto simp: is_valid_move_def is_empty_get Let_def)
qed

theorem engaged_unit_cannot_move_but_can_attack_witness:
  "is_valid_move engaged_example \<lparr>src = \<lparr>row = 2, col = 4\<rparr>, dst = \<lparr>row = 1, col = 4\<rparr>\<rparr>
     = (False, ''Invalid move'', Some ''Sorry, this player is engaged in combat.'')
   \<and> is_valid_move engaged_example \<lparr>src = \<lparr>row = 2, col = 4\<rparr>, dst = \<lparr>row = 2, col = 3\<rparr>\<rparr>
     = (True, ''attack'', None)"
proof -
  let ?c = "\<lparr>row = 2, col = 4\<rparr> :: Coord"
  let ?d1 = "\<lparr>row = 1, col = 4\<rparr> :: Coord"
  let ?d2 = "\<lparr>row = 2, col = 3\<rparr> :: Coord"
  let ?s = "new_unit Attacker Program"
  let ?eu = "new_unit Defender Tech"
  have wf: "wf_board engaged_example"
    by code_simp
  have s: "get engaged_example ?c = Some ?s" "player ?s = next_player engaged_example"
    by code_simp+
  have ty: "type ?s = AI \<or> type ?s = Firewall \<or> type ?s = Program"
    by code_simp
  have enemy: "?d2 \<in> set (iter_adjacent ?c)" "get engaged_example ?d2 = Some ?eu"
      "player ?eu \<noteq> player ?s"
    by code_simp+
  have d1: "?d1 \<in> set (iter_adjacent ?c)" "is_valid_coord engaged_example ?d1"
      "get engaged_example ?d1 = None"
    by code_simp+
  have d2: "is_valid_coord engaged_example ?d2"
    by code_simp
  have m1: "is_valid_move engaged_example \<lparr>src = ?c, dst = ?d1\<rparr>
     = (False, ''Invalid move'', Some ''Sorry, this player is engaged in combat.'')"
    using engaged_unit_cannot_move_but_can_attack
      [of engaged_example "\<lparr>src = ?c, dst = ?d1\<rparr>" ?s ?d2 ?eu] wf s ty enemy d1
    by simp
  have m2: "is_valid_move engaged_example \<lparr>src = ?c, dst = ?d2\<rparr> = (True, ''attack'', None)"
    using engaged_unit_cannot_move_but_can_attack
      [of engaged_example "\<lparr>src = ?c, dst = ?d2\<rparr>" ?s ?d2 ?eu] wf s ty enemy d2
    by simp
  from m1 m2 show ?thesis by simp
qed

section \<open>Move enumeration\<close>

text \<open>What the enumeration yields: all five candidates of every unit of the side to move.\<close>

lemma move_candidates_unfiltered:
  "move_candidates g =
     concat (map (\<lambda>(s, _). map (\<lambda>d. \<lparr>src = s, dst = d\<rparr>) (iter_adjacent s)
                              @ [\<lparr>src = s, dst = s\<rparr>])
                 (player_units g (next_player g)))"
  by (simp add: move_candidates_def tuple3_truth_def)

text \<open>
  Claim C1 says that \<open>move_candidates\<close> yields, of the five candidates of each unit
  of the side to move, exactly those that \<open>is_valid_move\<close> does not reject. The
  source tests the truth value of the triple \<open>is_valid_move\<close> returns, which is
  true whatever the triple holds. In the starting position the enumeration yields the
  move of the Attacker AI from E4 to the off-board cell of row 5, column 4, a move
  that \<open>is_valid_move\<close> rejects.
\<close>

theorem move_candidates_yields_rejected_move:
  "\<lparr>src = \<lparr>row = 4, col = 4\<rparr>, dst = \<lparr>row = 5, col = 4\<rparr>\<rparr>
     \<in> set (move_candidates (new_game default_options))
   \<and> is_valid_move (new_game default_options)
         \<lparr>src = \<lparr>row = 4, col = 4\<rparr>, dst = \<lparr>row = 5, col = 4\<rparr>\<rparr>
       = (False, ''Invalid move'', Some ''Sorry, src or dest not on board'')"
  by code_simp

text \<open>So not every move the enumeration yields in the starting position is valid.\<close>

theorem move_candidates_yields_rejected_move_witness:
  "\<not> list_all (\<lambda>m. fst (is_valid_move (new_game default_options) m))
              (move_candidates (new_game default_options))"
proof
  assume a: "list_all (\<lambda>m. fst (is_valid_move (new_game default_options) m))
              (move_candidates (new_game default_options))"
  let ?m = "\<lparr>src = \<lparr>row = 4, col = 4\<rparr>, dst = \<lparr>row = 5, col = 4\<rparr>\<rparr>"
  from move_candidates_yields_rejected_move
  have m: "?m \<in> set (move_candidates (new_game default_options))"
    and r: "\<not> fst (is_valid_move (new_game default_options) ?m)"
    by simp_all
  from a m have "fst (is_valid_move (new_game default_options) ?m)"
    unfolding list_all_iff by blast
  with r show False by simp
qed

section \<open>Heuristic e1 on the starting position\<close>

text \<open>
  Claim C2 says that \<open>heuristic_1\<close> is 0 on the starting position of the default
  5 x 5 game. It is not.
\<close>

theorem heuristic_1_initial_not_zero:
  "heuristic_1 (new_game default_options) \<noteq> 0"
  by code_simp

text \<open>
  Claim C2, amended. The two sides start with different units: the Attacker has two
  Viruses, two Programs and one Firewall besides its AI, the Defender two Techs, two
  Firewalls and one Program. With every unit at health 9 the Attacker scores 10141.5
  and the Defender 10151, and \<open>heuristic_1\<close> returns -9.5.
\<close>

theorem heuristic_1_initial:
  "heuristic_1 (new_game default_options) = - (19 / 2)"
  by code_simp

section \<open>Self-destruct\<close>

text \<open>
  Claim C5. On a board of the right shape whose units have health in 1..9, applying a
  move that \<open>is_valid_move\<close> classifies as self-destruct succeeds and leaves the
  source cell empty (the source's health is set to 0 and the dead unit is removed);
  on each of the up-to-eight orthogonal and diagonal neighbours of the source that
  holds a unit, that unit loses exactly 2 health, and is removed when that brings it
  to 0 (health 1 clamps to 0); every other cell is unchanged. \<open>ai_move\<close> leaves
  the same state.
\<close>

theorem self_destruct_effect:
  assumes wf: "wf_board g"
    and hs: "healths_in_range g"
    and sd: "is_valid_move g coords = (True, ''self-destruct'', None)"
  shows "snd (perform_move g coords) = Some (True, ''Self-destruction initiated'')
       \<and> fst (ai_move g coords) = fst (perform_move g coords)
       \<and> (\<forall>c. get (fst (perform_move g coords)) c =
            (if c = src coords then None
             else if c \<in> set (iter_all8_adjacent (src coords)) then
               (case get g c of
                  None \<Rightarrow> None
                | Some u \<Rightarrow> if health u - 2 \<le> 0 then None
                            else Some (u\<lparr>health := health u - 2\<rparr>))
             else get g c))"
proof -
  from is_valid_move_self_destruct [OF sd] obtain s where
    s: "get g (src coords) = Some s" by blast
  let ?g1 = "mod_health g (src coords) (- health (the (get g (src coords))))"
  have wf1: "wf_board ?g1" using wf by (rule wf_board_mod_health)
  have z: "cell_after (- health s) (Some s) = None"
    by (simp add: cell_after_def unit_mod_health_def is_alive_def)
  have g1: "get ?g1 c = (if c = src coords then None else get g c)" for c
    using s z by (simp add: get_mod_health [OF wf])
  have pm: "fst (perform_move g coords) = perform_self_destruction g coords"
    "snd (perform_move g coords) = Some (True, ''Self-destruction initiated'')"
    using sd by (simp_all add: perform_move_def)
  have ca: "cell_after (- 2) (get g c) =
      (case get g c of None \<Rightarrow> None
       | Some u \<Rightarrow> if health u - 2 \<le> 0 then None else Some (u\<lparr>health := health u - 2\<rparr>))" for c
  proof (cases "get g c")
    case None
    then show ?thesis by (simp add: cell_after_def)
  next
    case (Some u)
    with wf hs have "health u \<le> 9" by (simp add: healths_in_rangeD)
    then show ?thesis using Some
      by (auto simp: cell_after_def unit_mod_health_def is_alive_def Let_def)
  qed
  have "get (perform_self_destruction g coords) c =
          (if c = src coords then None
           else if c \<in> set (iter_all8_adjacent (src coords)) then cell_after (- 2) (get g c)
           else get g c)" for c
    using fold_sd_step [OF wf1 distinct_iter_all8_adjacent, of "- 2" "src coords" c]
      self_not_in_all8 [of "src coords"] g1
    by (auto simp: perform_self_destruction_def Let_def cell_after_def)
  then show ?thesis using pm ca by (simp add: ai_move_state)
qed

theorem self_destruct_effect_witness:
  "wf_board engaged_example \<and> healths_in_range engaged_example
   \<and> is_valid_move engaged_example \<lparr>src = \<lparr>row = 2, col = 4\<rparr>, dst = \<lparr>row = 2, col = 4\<rparr>\<rparr>
       = (True, ''self-destruct'', None)
   \<and> get (fst (perform_move engaged_example
                 \<lparr>src = \<lparr>row = 2, col = 4\<rparr>, dst = \<lparr>row = 2, col = 4\<rparr>\<rparr>))
         \<lparr>row = 2, col = 4\<rparr> = None
   \<and> get (fst (perform_move engaged_example
                 \<lparr>src = \<lparr>row = 2, col = 4\<rparr>, dst = \<lparr>row = 2, col = 4\<rparr>\<rparr>))
         \<lparr>row = 2, col = 3\<rparr> = Some \<lparr>player = Defender, type = Tech, health = 7\<rparr>
   \<and> get (fst (perform_move engaged_example
                 \<lparr>src = \<lparr>row = 2, col = 4\<rparr>, dst = \<lparr>row = 2, col = 4\<rparr>\<rparr>))
         \<lparr>row = 3, col = 3\<rparr> = Some \<lparr>player = Attacker, type = Firewall, health = 7\<rparr>
   \<and> get (fst (perform_move engaged_example
                 \<lparr>src = \<lparr>row = 2, col = 4\<rparr>, dst = \<lparr>row = 2, col = 4\<rparr>\<rparr>))
         \<lparr>row = 4, col = 4\<rparr> = Some \<lparr>player = Attacker, type = AI, health = 9\<rparr>"
proof -
  let ?m = "\<lparr>src = \<lparr>row = 2, col = 4\<rparr>, dst = \<lparr>row = 2, col = 4\<rparr>\<rparr>"
  have wf: "wf_board engaged_example" by code_simp
  have hs: "healths_in_range engaged_example" by code_simp
  have sd: "is_valid_move engaged_example ?m = (True, ''self-destruct'', None)" by code_simp
  have c1: "get engaged_example \<lparr>row = 2, col = 3\<rparr>
              = Some \<lparr>player = Defender, type = Tech, health = 9\<rparr>" by code_simp
  have c2: "get engaged_example \<lparr>row = 3, col = 3\<rparr>
              = Some \<lparr>player = Attacker, type = Firewall, health = 9\<rparr>" by code_simp
  have c3: "get engaged_example \<lparr>row = 4, col = 4\<rparr>
              = Some \<lparr>player = Attacker, type = AI, health = 9\<rparr>" by code_simp
  from self_destruct_effect [OF wf hs sd] wf hs sd c1 c2 c3 show ?thesis
    by (simp add: iter_all8_adjacent_def)
qed

section \<open>Repair\<close>

text \<open>
  Claim C7. On a board of the right shape whose units have health in 1..9, applying a
  move that \<open>is_valid_move\<close> classifies as repair succeeds, leaves the repairing
  unit at the source as it was (its health included), and leaves at the destination
  the same unit with the repair table's amount added to its health, clamped at 9; so
  the destination's health never exceeds 9.
\<close>

theorem repair_effect:
  assumes wf: "wf_board g"
    and hs: "healths_in_range g"
    and rp: "is_valid_move g coords = (True, ''repair'', None)"
  shows "snd (perform_move g coords) = Some (True, ''Repair initiated'')
       \<and> fst (ai_move g coords) = fst (perform_move g coords)
       \<and> get (fst (perform_move g coords)) (src coords) = get g (src coords)
       \<and> (\<forall>u. get (fst (perform_move g coords)) (dst coords) = Some u \<longrightarrow> health u \<le> 9)
       \<and> (\<exists>s d. get g (src coords) = Some s \<and> get g (dst coords) = Some d
             \<and> get (fst (perform_move g coords)) (dst coords)
                 = Some (d\<lparr>health := min 9 (health d
                            + repair_table ! type_value (type s) ! type_value (type d))\<rparr>))"
proof -
  from is_valid_move_repair [OF rp] obtain s d where
    s: "get g (src coords) = Some s" and d: "get g (dst coords) = Some d"
    and ne: "src coords \<noteq> dst coords"
    and ty: "type s = AI \<and> (type d = Tech \<or> type d = Virus)
             \<or> type s = Tech \<and> (type d = AI \<or> type d = Firewall \<or> type d = Program)"
    by blast
  let ?amt = "repair_table ! type_value (type s) ! type_value (type d)"
  have amt: "?amt = 1 \<or> ?amt = 3" using ty by (auto simp: repair_table_def)
  have hd: "0 < health d" using wf hs d by (rule healths_in_rangeD)
  have pm: "fst (perform_move g coords) = mod_health g (dst coords) ?amt"
    "snd (perform_move g coords) = Some (True, ''Repair initiated'')"
    using rp s d by (simp_all add: perform_move_def perform_repair_def)
  have ca: "cell_after ?amt (Some d) = Some (d\<lparr>health := min 9 (health d + ?amt)\<rparr>)"
    using amt hd by (auto simp: cell_after_def unit_mod_health_def is_alive_def Let_def)
  show ?thesis
    using pm s d ne ca by (auto simp: get_mod_health [OF wf] ai_move_state)
qed

theorem repair_effect_witness:
  "wf_board repair_example \<and> healths_in_range repair_example
   \<and> is_valid_move repair_example \<lparr>src = \<lparr>row = 4, col = 4\<rparr>, dst = \<lparr>row = 3, col = 4\<rparr>\<rparr>
       = (True, ''repair'', None)
   \<and> get (fst (perform_move repair_example
                 \<lparr>src = \<lparr>row = 4, col = 4\<rparr>, dst = \<lparr>row = 3, col = 4\<rparr>\<rparr>))
         \<lparr>row = 4, col = 4\<rparr> = Some \<lparr>player = Attacker, type = AI, health = 9\<rparr>
   \<and> get (fst (perform_move repair_example
                 \<lparr>src = \<lparr>row = 4, col = 4\<rparr>, dst = \<lparr>row = 3, col = 4\<rparr>\<rparr>))
         \<lparr>row = 3, col = 4\<rparr> = Some \<lparr>player = Attacker, type = Virus, health = 6\<rparr>"
proof -
  let ?m = "\<lparr>src = \<lparr>row = 4, col = 4\<rparr>, dst = \<lparr>row = 3, col = 4\<rparr>\<rparr>"
  have wf: "wf_board repair_example" by code_simp
  have hs: "healths_in_range repair_example" by code_simp
  have rp: "is_valid_move repair_example ?m = (True, ''repair'', None)" by code_simp
  have c1: "get repair_example \<lparr>row = 4, col = 4\<rparr>
              = Some \<lparr>player = Attacker, type = AI, health = 9\<rparr>" by code_simp
  have c2: "get repair_example \<lparr>row = 3, col = 4\<rparr>
              = Some \<lparr>player = Attacker, type = Virus, health = 5\<rparr>" by code_simp
  from repair_effect [OF wf hs rp] wf hs rp c1 c2 show ?thesis
    by (auto simp: repair_table_def)
qed

section \<open>A Virus attacks a Program\<close>

text \<open>
  Claim C6 says that when a Virus attacks an adjacent Defender Program, the Program
  takes 6 damage and deals 1 damage back. In the default damage table the entry for a
  Program hitting a Virus is 3. With an Attacker Virus at B2 attacking the Defender
  Program at B1, both at health 9, the Virus is not left at health 9 - 1.
\<close>

theorem program_deals_three_to_virus:
  "is_valid_move virus_example \<lparr>src = \<lparr>row = 1, col = 2\<rparr>, dst = \<lparr>row = 1, col = 1\<rparr>\<rparr>
     = (True, ''attack'', None)
   \<and> get virus_example \<lparr>row = 1, col = 2\<rparr>
       = Some \<lparr>player = Attacker, type = Virus, health = 9\<rparr>
   \<and> get virus_example \<lparr>row = 1, col = 1\<rparr>
       = Some \<lparr>player = Defender, type = Program, health = 9\<rparr>
   \<and> get (fst (perform_move virus_example
                 \<lparr>src = \<lparr>row = 1, col = 2\<rparr>, dst = \<lparr>row = 1, col = 1\<rparr>\<rparr>))
         \<lparr>row = 1, col = 2\<rparr> \<noteq> Some \<lparr>player = Attacker, type = Virus, health = 9 - 1\<rparr>
   \<and> damage_table ! type_value Program ! type_value Virus \<noteq> 1"
  by code_simp

text \<open>
  Claim C6, amended. On a board of the right shape whose units have health in 1..9,
  an attack of a Virus on a Program takes 6 from the Program's health and 3 from the
  Virus's health; each unit is removed when that leaves it no health (the damage is
  clamped at the health the target has), and both amounts are looked up before either
  unit is changed.
\<close>

theorem virus_attacks_program:
  assumes wf: "wf_board g"
    and hs: "healths_in_range g"
    and at: "is_valid_move g coords = (True, ''attack'', None)"
    and s: "get g (src coords) = Some s" "type s = Virus"
    and d: "get g (dst coords) = Some d" "type d = Program"
  shows "snd (perform_move g coords) = Some (True, ''Attack initiated'')
       \<and> get (fst (perform_move g coords)) (dst coords)
           = (if health d - 6 \<le> 0 then None else Some (d\<lparr>health := health d - 6\<rparr>))
       \<and> get (fst (perform_move g coords)) (src coords)
           = (if health s - 3 \<le> 0 then None else Some (s\<lparr>health := health s - 3\<rparr>))"
proof -
  from is_valid_move_attack [OF at] have ne: "src coords \<noteq> dst coords" by blast
  have hsd: "health s \<le> 9" "health d \<le> 9"
    using wf hs s(1) d(1) by (simp_all add: healths_in_rangeD)
  let ?g1 = "mod_health g (src coords) (- 3)"
  have wf1: "wf_board ?g1" using wf by (rule wf_board_mod_health)
  have pm: "fst (perform_move g coords) = mod_health ?g1 (dst coords) (- 6)"
    "snd (perform_move g coords) = Some (True, ''Attack initiated'')"
    using at s d by (simp_all add: perform_move_def perform_attack_def damage_table_def Let_def)
  have cs: "cell_after (- 3) (Some s)
      = (if health s - 3 \<le> 0 then None else Some (s\<lparr>health := health s - 3\<rparr>))"
    using hsd by (auto simp: cell_after_def unit_mod_health_def is_alive_def Let_def)
  have cd: "cell_after (- 6) (Some d)
      = (if health d - 6 \<le> 0 then None else Some (d\<lparr>health := health d - 6\<rparr>))"
    using hsd by (auto simp: cell_after_def unit_mod_health_def is_alive_def Let_def)
  have g1: "get ?g1 (dst coords) = Some d" "get ?g1 (src coords) = cell_after (- 3) (Some s)"
    using s d ne by (auto simp: get_mod_health [OF wf])
  show ?thesis
    using pm g1 cs cd ne by (simp add: get_mod_health [OF wf1])
qed

theorem virus_attacks_program_witness:
  "wf_board virus_example \<and> healths_in_range virus_example
   \<and> is_valid_move virus_example \<lparr>src = \<lparr>row = 1, col = 2\<rparr>, dst = \<lparr>row = 1, col = 1\<rparr>\<rparr>
       = (True, ''attack'', None)
   \<and> get (fst (perform_move virus_example
                 \<lparr>src = \<lparr>row = 1, col = 2\<rparr>, dst = \<lparr>row = 1, col = 1\<rparr>\<rparr>))
         \<lparr>row = 1, col = 1\<rparr> = Some \<lparr>player = Defender, type = Program, health = 3\<rparr>
   \<and> get (fst (perform_move virus_example
                 \<lparr>src = \<lparr>row = 1, col = 2\<rparr>, dst = \<lparr>row = 1, col = 1\<rparr>\<rparr>))
         \<lparr>row = 1, col = 2\<rparr> = Some \<lparr>player = Attacker, type = Virus, health = 6\<rparr>"
proof -
  let ?m = "\<lparr>src = \<lparr>row = 1, col = 2\<rparr>, dst = \<lparr>row = 1, col = 1\<rparr>\<rparr>"
  let ?s = "\<lparr>player = Attacker, type = Virus, health = 9\<rparr>"
  let ?d = "\<lparr>player = Defender, type = Program, health = 9\<rparr>"
  have wf: "wf_board virus_example" by code_simp
  have hs: "healths_in_range virus_example" by code_simp
  have at: "is_valid_move virus_example ?m = (True, ''attack'', None)" by code_simp
  have s: "get virus_example (src ?m) = Some ?s" "type ?s = Virus" by code_simp+
  have d: "get virus_example (dst ?m) = Some ?d" "type ?d = Program" by code_simp+
  from virus_attacks_program [OF wf hs at s d] wf hs at show ?thesis
    by simp
qed

section \<open>Minimax and alpha-beta on a built tree\<close>

lemma fold_max_ge: "a \<le> fold max xs (a::score)"
proof (induction xs arbitrary: a)
  case Nil
  show ?case by simp
next
  case (Cons x xs)
  have "a \<le> max x a" by simp
  also have "\<dots> \<le> fold max xs (max x a)" by (rule Cons.IH)
  finally show ?case by simp
qed

lemma fold_min_le: "fold min xs (a::score) \<le> a"
proof (induction xs arbitrary: a)
  case Nil
  show ?case by simp
next
  case (Cons x xs)
  have "fold min xs (min x a) \<le> min x a" by (rule Cons.IH)
  also have "\<dots> \<le> a" by simp
  finally show ?case by simp
qed

lemma fold_max_Max:
  "cs \<noteq> [] \<Longrightarrow> fold max (map f cs) (a::score) = max a (Max (f ` set cs))"
proof (induction cs arbitrary: a)
  case Nil
  then show ?case by simp
next
  case (Cons c cs)
  show ?case
  proof (cases "cs = []")
    case True
    then show ?thesis by (simp add: max.commute)
  next
    case False
    then have "fold max (map f cs) (max (f c) a) = max (max (f c) a) (Max (f ` set cs))"
      by (rule Cons.IH)
    moreover have "Max (f ` set (c # cs)) = max (f c) (Max (f ` set cs))"
      using False by simp
    ultimately show ?thesis by (simp add: max.assoc max.left_commute max.commute)
  qed
qed

lemma fold_min_Min:
  "cs \<noteq> [] \<Longrightarrow> fold min (map f cs) (a::score) = min a (Min (f ` set cs))"
proof (induction cs arbitrary: a)
  case Nil
  then show ?case by simp
next
  case (Cons c cs)
  show ?case
  proof (cases "cs = []")
    case True
    then show ?thesis by (simp add: min.commute)
  next
    case False
    then have "fold min (map f cs) (min (f c) a) = min (min (f c) a) (Min (f ` set cs))"
      by (rule Cons.IH)
    moreover have "Min (f ` set (c # cs)) = min (f c) (Min (f ` set cs))"
      using False by simp
    ultimately show ?thesis by (simp add: min.assoc min.left_commute min.commute)
  qed
qed

lemma NegInf_least [simp]: "NegInf \<le> (x::score)"
  by simp

lemma PosInf_greatest [simp]: "(x::score) \<le> PosInf"
  by (cases x) simp_all

lemma max_NegInf [simp]: "max NegInf (x::score) = x"
  by (simp add: max_def)

lemma min_PosInf [simp]: "min PosInf (x::score) = x"
  by (cases x) (simp_all add: min_def)

subsection \<open>Plain minimax\<close>

lemma minimax_max_value:
  assumes "\<And>c st. c \<in> set cs \<Longrightarrow> fst (fst (minimax h c st)) = optimal_value h c"
  shows "fst (fst (minimax_max h cs mv mc st)) = fold max (map (optimal_value h) cs) mv"
  using assms
proof (induction cs arbitrary: mv mc st)
  case Nil
  show ?case by simp
next
  case (Cons c cs)
  obtain v x c' st1 where r: "minimax h c st = ((v, x), c', st1)"
    by (metis prod.collapse)
  have v: "v = optimal_value h c" using Cons.prems [of c st] r by simp
  have ih: "fst (fst (minimax_max h cs a b st1)) = fold max (map (optimal_value h) cs) a" for a b
    by (rule Cons.IH) (simp add: Cons.prems)
  show ?case
  proof (cases "mv < v")
    case True
    then have "max (optimal_value h c) mv = v" using v by (auto simp: max_def)
    then show ?thesis using r True ih by (simp add: split_beta)
  next
    case False
    then have "max (optimal_value h c) mv = mv" using v by (auto simp: max_def)
    then show ?thesis using r False ih by (simp add: split_beta)
  qed
qed

lemma minimax_min_value:
  assumes "\<And>c st. c \<in> set cs \<Longrightarrow> fst (fst (minimax h c st)) = optimal_value h c"
  shows "fst (fst (minimax_min h cs mv mc st)) = fold min (map (optimal_value h) cs) mv"
  using assms
proof (induction cs arbitrary: mv mc st)
  case Nil
  show ?case by simp
next
  case (Cons c cs)
  obtain v x c' st1 where r: "minimax h c st = ((v, x), c', st1)"
    by (metis prod.collapse)
  have v: "v = optimal_value h c" using Cons.prems [of c st] r by simp
  have ih: "fst (fst (minimax_min h cs a b st1)) = fold min (map (optimal_value h) cs) a" for a b
    by (rule Cons.IH) (simp add: Cons.prems)
  show ?case
  proof (cases "v < mv")
    case True
    then have "min (optimal_value h c) mv = v" using v by (auto simp: min_def)
    then show ?thesis using r True ih by (simp add: split_beta)
  next
    case False
    then have "min (optimal_value h c) mv = mv" using v by (auto simp: min_def)
    then show ?thesis using r False ih by (simp add: split_beta)
  qed
qed

lemma minimax_value: "fst (fst (minimax h n st)) = optimal_value h n"
proof (induction n arbitrary: st)
  case (Node i g m a b cs mx d)
  have ch: "fst (fst (minimax h c st')) = optimal_value h c" if "c \<in> set cs" for c st'
    using that by (rule Node.IH)
  show ?case
  proof (cases "cs = []")
    case True
    then show ?thesis by (simp add: Let_def)
  next
    case False
    show ?thesis
    proof (cases mx)
      case True
      have "fst (fst (minimax_max h cs NegInf None st)) = Max (optimal_value h ` set cs)"
        using minimax_max_value [of cs h NegInf None st] ch False
        by (simp add: fold_max_Max)
      then show ?thesis using False True by (simp add: split_beta)
    next
      case mn: False
      have "fst (fst (minimax_min h cs PosInf None st)) = Min (optimal_value h ` set cs)"
        using minimax_min_value [of cs h PosInf None st] ch False
        by (simp add: fold_min_Min)
      then show ?thesis using False mn by (simp add: split_beta)
    qed
  qed
qed

subsection \<open>Alpha-beta\<close>

lemma alpha_beta_max_value:
  assumes ch: "\<And>c a b st. c \<in> set cs \<Longrightarrow> a < b \<Longrightarrow>
                 fail_hard a b (optimal_value h c) (fst (fst (alpha_beta_pruning_rec h c a b st)))"
    and ab: "alpha < beta"
  shows "(fold max (map (optimal_value h) cs) alpha < beta \<longrightarrow>
            fst (fst (alpha_beta_max h cs alpha beta best st))
              = fold max (map (optimal_value h) cs) alpha)
       \<and> (beta \<le> fold max (map (optimal_value h) cs) alpha \<longrightarrow>
            beta \<le> fst (fst (alpha_beta_max h cs alpha beta best st)))"
  using assms
proof (induction cs arbitrary: alpha best st)
  case Nil
  then show ?case by auto
next
  case (Cons c cs)
  let ?V = "optimal_value h"
  obtain na x c' st1 where r: "alpha_beta_pruning_rec h c alpha beta st = ((na, x), c', st1)"
    by (metis prod.collapse)
  have fh: "fail_hard alpha beta (?V c) na"
    using Cons.prems(1) [of c alpha beta st] Cons.prems(2) r by simp
  have ih: "(fold max (map ?V cs) a < beta \<longrightarrow>
               fst (fst (alpha_beta_max h cs a beta b' st')) = fold max (map ?V cs) a)
          \<and> (beta \<le> fold max (map ?V cs) a \<longrightarrow>
               beta \<le> fst (fst (alpha_beta_max h cs a beta b' st')))"
    if "a < beta" for a b' st'
    using that by (intro Cons.IH) (simp_all add: Cons.prems(1))
  consider (lo) "?V c \<le> alpha" | (mid) "alpha < ?V c" "?V c < beta" | (hi) "beta \<le> ?V c"
    by fastforce
  then show ?case
  proof cases
    case lo
    then have na: "\<not> alpha < na" using fh by (auto simp: fail_hard_def)
    have mx: "max (?V c) alpha = alpha" using lo by (auto simp: max_def)
    have nb: "\<not> beta \<le> alpha" using Cons.prems(2) by auto
    have "fst (fst (alpha_beta_max h (c # cs) alpha beta best st))
            = fst (fst (alpha_beta_max h cs alpha beta best st1))"
      using r na nb by (simp add: split_beta)
    then show ?thesis using ih [OF Cons.prems(2), of best st1] mx by simp
  next
    case mid
    then have na: "na = ?V c" using fh by (auto simp: fail_hard_def)
    have mx: "max (?V c) alpha = ?V c" using mid by (auto simp: max_def)
    have nb: "\<not> beta \<le> ?V c" using mid by auto
    have "fst (fst (alpha_beta_max h (c # cs) alpha beta best st))
            = fst (fst (alpha_beta_max h cs (?V c) beta (Some c') st1))"
      using r na mid(1) nb by (simp add: split_beta)
    then show ?thesis using ih [OF mid(2), of "Some c'" st1] mx by simp
  next
    case hi
    then have bn: "beta \<le> na" using fh by (auto simp: fail_hard_def)
    then have an: "alpha < na" using Cons.prems(2) by auto
    have res: "fst (fst (alpha_beta_max h (c # cs) alpha beta best st)) = na"
      using r an bn by (simp add: split_beta)
    have "beta \<le> max (?V c) alpha" using hi by (auto simp: max_def)
    also have "\<dots> \<le> fold max (map ?V cs) (max (?V c) alpha)" by (rule fold_max_ge)
    finally have "beta \<le> fold max (map ?V (c # cs)) alpha" by simp
    then show ?thesis using res bn by auto
  qed
qed

lemma alpha_beta_min_value:
  assumes ch: "\<And>c a b st. c \<in> set cs \<Longrightarrow> a < b \<Longrightarrow>
                 fail_hard a b (optimal_value h c) (fst (fst (alpha_beta_pruning_rec h c a b st)))"
    and ab: "alpha < beta"
  shows "(alpha < fold min (map (optimal_value h) cs) beta \<longrightarrow>
            fst (fst (alpha_beta_min h cs alpha beta best st))
              = fold min (map (optimal_value h) cs) beta)
       \<and> (fold min (map (optimal_value h) cs) beta \<le> alpha \<longrightarrow>
            fst (fst (alpha_beta_min h cs alpha beta best st)) \<le> alpha)"
  using assms
proof (induction cs arbitrary: beta best st)
  case Nil
  then show ?case by auto
next
  case (Cons c cs)
  let ?V = "optimal_value h"
  obtain nb x c' st1 where r: "alpha_beta_pruning_rec h c alpha beta st = ((nb, x), c', st1)"
    by (metis prod.collapse)
  have fh: "fail_hard alpha beta (?V c) nb"
    using Cons.prems(1) [of c alpha beta st] Cons.prems(2) r by simp
  have ih: "(alpha < fold min (map ?V cs) b \<longrightarrow>
               fst (fst (alpha_beta_min h cs alpha b b' st')) = fold min (map ?V cs) b)
          \<and> (fold min (map ?V cs) b \<le> alpha \<longrightarrow>
               fst (fst (alpha_beta_min h cs alpha b b' st')) \<le> alpha)"
    if "alpha < b" for b b' st'
    using that by (intro Cons.IH) (simp_all add: Cons.prems(1))
  consider (hi) "beta \<le> ?V c" | (mid) "alpha < ?V c" "?V c < beta" | (lo) "?V c \<le> alpha"
    by fastforce
  then show ?case
  proof cases
    case hi
    then have nbeta: "\<not> nb < beta" using fh by (auto simp: fail_hard_def)
    have mn: "min (?V c) beta = beta" using hi by (auto simp: min_def)
    have nc: "\<not> beta \<le> alpha" using Cons.prems(2) by auto
    have "fst (fst (alpha_beta_min h (c # cs) alpha beta best st))
            = fst (fst (alpha_beta_min h cs alpha beta best st1))"
      using r nbeta nc by (simp add: split_beta)
    then show ?thesis using ih [OF Cons.prems(2), of best st1] mn by simp
  next
    case mid
    then have nb: "nb = ?V c" using fh by (auto simp: fail_hard_def)
    have mn: "min (?V c) beta = ?V c" using mid by (auto simp: min_def)
    have nc: "\<not> ?V c \<le> alpha" using mid by auto
    have "fst (fst (alpha_beta_min h (c # cs) alpha beta best st))
            = fst (fst (alpha_beta_min h cs alpha (?V c) (Some c') st1))"
      using r nb mid(2) nc by (simp add: split_beta)
    then show ?thesis using ih [OF mid(1), of "Some c'" st1] mn by simp
  next
    case lo
    then have na: "nb \<le> alpha" using fh by (auto simp: fail_hard_def)
    then have bn: "nb < beta" using Cons.prems(2) by auto
    have res: "fst (fst (alpha_beta_min h (c # cs) alpha beta best st)) = nb"
      using r na bn by (simp add: split_beta)
    have "fold min (map ?V cs) (min (?V c) beta) \<le> min (?V c) beta" by (rule fold_min_le)
    also have "\<dots> \<le> alpha" using lo by (auto simp: min_def)
    finally have "fold min (map ?V (c # cs)) beta \<le> alpha" by simp
    then show ?thesis using res na by auto
  qed
qed

lemma alpha_beta_value:
  "alpha < beta \<Longrightarrow>
   fail_hard alpha beta (optimal_value h n) (fst (fst (alpha_beta_pruning_rec h n alpha beta st)))"
proof (induction n arbitrary: alpha beta st)
  case (Node i g m a b cs mx d)
  have ch: "fail_hard a' b' (optimal_value h c) (fst (fst (alpha_beta_pruning_rec h c a' b' st')))"
    if "c \<in> set cs" "a' < b'" for c a' b' st'
    using that by (rule Node.IH)
  show ?case
  proof (cases "cs = []")
    case True
    then show ?thesis by (simp add: Let_def fail_hard_def)
  next
    case False
    show ?thesis
    proof (cases mx)
      case True
      let ?v = "Max (optimal_value h ` set cs)"
      have res: "fst (fst (alpha_beta_pruning_rec h (Node i g m a b cs mx d) alpha beta st))
                  = fst (fst (alpha_beta_max h cs alpha beta None st))"
        using False True by (simp add: split_beta)
      have v: "optimal_value h (Node i g m a b cs mx d) = ?v" using False True by simp
      have f: "fold max (map (optimal_value h) cs) alpha = max alpha ?v"
        using False by (rule fold_max_Max)
      from alpha_beta_max_value [of cs h alpha beta None st, OF ch Node.prems]
      show ?thesis unfolding res v f fail_hard_def using Node.prems
        by (auto simp: max_def split: if_splits)
    next
      case mn: False
      let ?v = "Min (optimal_value h ` set cs)"
      have res: "fst (fst (alpha_beta_pruning_rec h (Node i g m a b cs mx d) alpha beta st))
                  = fst (fst (alpha_beta_min h cs alpha beta None st))"
        using False mn by (simp add: split_beta)
      have v: "optimal_value h (Node i g m a b cs mx d) = ?v" using False mn by simp
      have f: "fold min (map (optimal_value h) cs) beta = min beta ?v"
        using False by (rule fold_min_Min)
      from alpha_beta_min_value [of cs h alpha beta None st, OF ch Node.prems]
      show ?thesis unfolding res v f fail_hard_def using Node.prems
        by (auto simp: min_def split: if_splits)
    qed
  qed
qed

lemma alpha_beta_pruning_value:
  "fst (fst (alpha_beta_pruning h n st)) = optimal_value h n"
proof -
  have lt: "NegInf < PosInf" by (simp add: less_score_def)
  have fh: "fail_hard NegInf PosInf (optimal_value h n) (fst (fst (alpha_beta_pruning h n st)))"
    unfolding alpha_beta_pruning_def using lt by (rule alpha_beta_value)
  show ?thesis
  proof (cases "optimal_value h n")
    case NegInf
    then have "fst (fst (alpha_beta_pruning h n st)) \<le> NegInf" using fh by (simp add: fail_hard_def)
    then show ?thesis using NegInf by (cases "fst (fst (alpha_beta_pruning h n st))") simp_all
  next
    case (Fin x)
    then show ?thesis using fh by (simp add: fail_hard_def less_score_def)
  next
    case PosInf
    then have "PosInf \<le> fst (fst (alpha_beta_pruning h n st))" using fh by (simp add: fail_hard_def)
    then show ?thesis using PosInf by (cases "fst (fst (alpha_beta_pruning h n st))") simp_all
  qed
qed

subsection \<open>Counting leaf evaluations\<close>

lemma total_evals_calculate_evaluations [simp]:
  "total_evals (calculate_evaluations c d) = total_evals c + 1"
  by (simp add: calculate_evaluations_def)

lemma leaf_count_nonneg: "0 \<le> leaf_count n"
proof (induction n)
  case (Node i g m a b cs mx d)
  then have "0 \<le> sum_list (map leaf_count cs)" by (auto intro!: sum_list_nonneg)
  then show ?case by simp
qed

lemma minimax_max_count:
  assumes "\<And>c st. c \<in> set cs \<Longrightarrow>
             total_evals (snd (snd (minimax h c st))) = total_evals st + leaf_count c"
  shows "total_evals (snd (snd (minimax_max h cs mv mc st)))
           = total_evals st + sum_list (map leaf_count cs)"
  using assms
proof (induction cs arbitrary: mv mc st)
  case Nil
  show ?case by simp
next
  case (Cons c cs)
  obtain v x c' st1 where r: "minimax h c st = ((v, x), c', st1)"
    by (metis prod.collapse)
  have c1: "total_evals st1 = total_evals st + leaf_count c"
    using Cons.prems [of c st] r by simp
  have ih: "total_evals (snd (snd (minimax_max h cs a b st1)))
              = total_evals st1 + sum_list (map leaf_count cs)" for a b
    by (rule Cons.IH) (simp add: Cons.prems)
  show ?case using r c1 ih by (simp add: split_beta)
qed

lemma minimax_min_count:
  assumes "\<And>c st. c \<in> set cs \<Longrightarrow>
             total_evals (snd (snd (minimax h c st))) = total_evals st + leaf_count c"
  shows "total_evals (snd (snd (minimax_min h cs mv mc st)))
           = total_evals st + sum_list (map leaf_count cs)"
  using assms
proof (induction cs arbitrary: mv mc st)
  case Nil
  show ?case by simp
next
  case (Cons c cs)
  obtain v x c' st1 where r: "minimax h c st = ((v, x), c', st1)"
    by (metis prod.collapse)
  have c1: "total_evals st1 = total_evals st + leaf_count c"
    using Cons.prems [of c st] r by simp
  have ih: "total_evals (snd (snd (minimax_min h cs a b st1)))
              = total_evals st1 + sum_list (map leaf_count cs)" for a b
    by (rule Cons.IH) (simp add: Cons.prems)
  show ?case using r c1 ih by (simp add: split_beta)
qed

lemma minimax_count:
  "total_evals (snd (snd (minimax h n st))) = total_evals st + leaf_count n"
proof (induction n arbitrary: st)
  case (Node i g m a b cs mx d)
  have ch: "total_evals (snd (snd (minimax h c st'))) = total_evals st' + leaf_count c"
    if "c \<in> set cs" for c st'
    using that by (rule Node.IH)
  show ?case
    using minimax_max_count [of cs h NegInf None st] minimax_min_count [of cs h PosInf None st] ch
    by (simp add: split_beta Let_def)
qed

lemma alpha_beta_max_count:
  assumes "\<And>c a b st. c \<in> set cs \<Longrightarrow>
             total_evals st \<le> total_evals (snd (snd (alpha_beta_pruning_rec h c a b st)))
             \<and> total_evals (snd (snd (alpha_beta_pruning_rec h c a b st)))
                 \<le> total_evals st + leaf_count c"
  shows "total_evals st \<le> total_evals (snd (snd (alpha_beta_max h cs alpha beta best st)))
       \<and> total_evals (snd (snd (alpha_beta_max h cs alpha beta best st)))
           \<le> total_evals st + sum_list (map leaf_count cs)"
  using assms
proof (induction cs arbitrary: alpha best st)
  case Nil
  show ?case by simp
next
  case (Cons c cs)
  obtain v x c' st1 where r: "alpha_beta_pruning_rec h c alpha beta st = ((v, x), c', st1)"
    by (metis prod.collapse)
  have c1: "total_evals st \<le> total_evals st1" "total_evals st1 \<le> total_evals st + leaf_count c"
    using Cons.prems [where c = c and a = alpha and b = beta and st = st] r by simp_all
  have ih: "total_evals st1 \<le> total_evals (snd (snd (alpha_beta_max h cs a beta b st1)))
          \<and> total_evals (snd (snd (alpha_beta_max h cs a beta b st1)))
              \<le> total_evals st1 + sum_list (map leaf_count cs)" for a b
    by (rule Cons.IH) (simp add: Cons.prems)
  have nn: "0 \<le> sum_list (map leaf_count cs)"
    by (auto intro!: sum_list_nonneg simp: leaf_count_nonneg)
  show ?case
    using r c1 nn ih [of v "Some c'"] ih [of alpha best]
    by (auto simp: split_beta Let_def)
qed

lemma alpha_beta_min_count:
  assumes "\<And>c a b st. c \<in> set cs \<Longrightarrow>
             total_evals st \<le> total_evals (snd (snd (alpha_beta_pruning_rec h c a b st)))
             \<and> total_evals (snd (snd (alpha_beta_pruning_rec h c a b st)))
                 \<le> total_evals st + leaf_count c"
  shows "total_evals st \<le> total_evals (snd (snd (alpha_beta_min h cs alpha beta best st)))
       \<and> total_evals (snd (snd (alpha_beta_min h cs alpha beta best st)))
           \<le> total_evals st + sum_list (map leaf_count cs)"
  using assms
proof (induction cs arbitrary: beta best st)
  case Nil
  show ?case by simp
next
  case (Cons c cs)
  obtain v x c' st1 where r: "alpha_beta_pruning_rec h c alpha beta st = ((v, x), c', st1)"
    by (metis prod.collapse)
  have c1: "total_evals st \<le> total_evals st1" "total_evals st1 \<le> total_evals st + leaf_count c"
    using Cons.prems [where c = c and a = alpha and b = beta and st = st] r by simp_all
  have ih: "total_evals st1 \<le> total_evals (snd (snd (alpha_beta_min h cs alpha b' b st1)))
          \<and> total_evals (snd (snd (alpha_beta_min h cs alpha b' b st1)))
              \<le> total_evals st1 + sum_list (map leaf_count cs)" for b' b
    by (rule Cons.IH) (simp add: Cons.prems)
  have nn: "0 \<le> sum_list (map leaf_count cs)"
    by (auto intro!: sum_list_nonneg simp: leaf_count_nonneg)
  show ?case
    using r c1 nn ih [of v "Some c'"] ih [of beta best]
    by (auto simp: split_beta Let_def)
qed

lemma alpha_beta_count:
  "total_evals st \<le> total_evals (snd (snd (alpha_beta_pruning_rec h n alpha beta st)))
   \<and> total_evals (snd (snd (alpha_beta_pruning_rec h n alpha beta st)))
       \<le> total_evals st + leaf_count n"
proof (induction n arbitrary: alpha beta st)
  case (Node i g m a b cs mx d)
  have ch: "total_evals st' \<le> total_evals (snd (snd (alpha_beta_pruning_rec h c a' b' st')))
             \<and> total_evals (snd (snd (alpha_beta_pruning_rec h c a' b' st')))
                 \<le> total_evals st' + leaf_count c"
    if "c \<in> set cs" for c a' b' st'
    using that by (rule Node.IH)
  show ?case
    using alpha_beta_max_count [where cs = cs and h = h and st = st and alpha = alpha
        and beta = beta and best = None]
      alpha_beta_min_count [where cs = cs and h = h and st = st and alpha = alpha
        and beta = beta and best = None] ch
    by (simp add: split_beta Let_def)
qed

text \<open>
  Claim C4. On every tree, with the same leaf heuristic for both walks and whatever
  the counters at the start: \<open>minimax\<close> and \<open>alpha_beta_pruning\<close> both return
  the optimal (minimax) value of the tree as root value; \<open>minimax\<close> evaluates every
  leaf once, and \<open>alpha_beta_pruning\<close> evaluates at most as many leaves as
  \<open>minimax\<close> does (\<open>total_evals\<close> grows by one per leaf evaluation).
\<close>

theorem alpha_beta_agrees_with_minimax:
  "fst (fst (minimax h n c)) = optimal_value h n
   \<and> fst (fst (alpha_beta_pruning h n c')) = optimal_value h n
   \<and> total_evals (snd (snd (minimax h n c))) - total_evals c = leaf_count n
   \<and> 0 \<le> total_evals (snd (snd (alpha_beta_pruning h n c'))) - total_evals c'
   \<and> total_evals (snd (snd (alpha_beta_pruning h n c'))) - total_evals c'
       \<le> total_evals (snd (snd (minimax h n c))) - total_evals c"
  using minimax_count [of h n c]
    alpha_beta_count [of c' h n NegInf PosInf, folded alpha_beta_pruning_def]
  by (simp add: minimax_value alpha_beta_pruning_value)

theorem alpha_beta_agrees_with_minimax_witness:
  "fst (fst (alpha_beta_pruning (\<lambda>g. g) pruning_example empty_counters)) = Fin 3
   \<and> optimal_value (\<lambda>g. g) pruning_example = Fin 3
   \<and> total_evals (snd (snd (minimax (\<lambda>g. g) pruning_example empty_counters))) = 4
   \<and> total_evals (snd (snd (alpha_beta_pruning (\<lambda>g. g) pruning_example empty_counters))) = 3"
proof -
  have m: "fst (fst (minimax (\<lambda>g. g) pruning_example empty_counters)) = Fin 3"
    by code_simp
  have a: "total_evals (snd (snd (alpha_beta_pruning (\<lambda>g. g) pruning_example empty_counters))) = 3"
    by code_simp
  have l: "leaf_count pruning_example = 4"
    by code_simp
  have z: "total_evals empty_counters = 0"
    by code_simp
  from alpha_beta_agrees_with_minimax
         [of "\<lambda>g. g" pruning_example empty_counters empty_counters] m a l z
  show ?thesis by simp
qed

section \<open>The tree built by add_node\<close>

lemma tree_invariant_iff:
  "tree_invariant t =
    ((\<forall>r. root t = Some r \<longrightarrow>
        r < length (objects t) \<and> depth (objects t ! r) = Some 1 \<and> is_max (objects t ! r))
     \<and> (\<forall>i a. nodes t i = Some a \<longrightarrow> a < length (objects t))
     \<and> (\<forall>q < length (objects t). \<exists>pd. depth (objects t ! q) = Some pd
           \<and> (\<forall>c \<in> set (children (objects t ! q)).
                 c < length (objects t) \<and> depth (objects t ! c) = Some (pd + 1)
                 \<and> is_max (objects t ! c) = (\<not> is_max (objects t ! q))))
     \<and> (\<forall>a < length (objects t).
           (depth (objects t ! a) = Some 1 \<and> is_max (objects t ! a))
           \<or> (\<exists>q < length (objects t). a \<in> set (children (objects t ! q)))))"
proof -
  have 1: "(case root t of None \<Rightarrow> True
            | Some r \<Rightarrow> r < length (objects t) \<and> depth (objects t ! r) = Some 1
                         \<and> is_max (objects t ! r))
         = (\<forall>r. root t = Some r \<longrightarrow>
              r < length (objects t) \<and> depth (objects t ! r) = Some 1 \<and> is_max (objects t ! r))"
    by (simp split: option.splits)
  have 2: "(\<forall>a \<in> ran (nodes t). a < length (objects t))
         = (\<forall>i a. nodes t i = Some a \<longrightarrow> a < length (objects t))"
    by (auto simp: ran_def)
  have 3: "list_all (\<lambda>p. (case depth p of None \<Rightarrow> False
             | Some pd \<Rightarrow> list_all (\<lambda>c. c < length (objects t)
                              \<and> depth (objects t ! c) = Some (pd + 1)
                              \<and> is_max (objects t ! c) = (\<not> is_max p)) (children p)))
            (objects t)
         = (\<forall>q < length (objects t). \<exists>pd. depth (objects t ! q) = Some pd
           \<and> (\<forall>c \<in> set (children (objects t ! q)).
                 c < length (objects t) \<and> depth (objects t ! c) = Some (pd + 1)
                 \<and> is_max (objects t ! c) = (\<not> is_max (objects t ! q))))"
  proof -
    have c: "(case d of None \<Rightarrow> False | Some pd \<Rightarrow> R pd) = (\<exists>pd. d = Some pd \<and> R pd)"
      for d :: "int option" and R
      by (cases d) auto
    show ?thesis
      by (simp only: c list_all_iff all_set_conv_all_nth [of "objects t"])
  qed
  have 4: "list_all (\<lambda>a. (depth (objects t ! a) = Some 1 \<and> is_max (objects t ! a))
                      \<or> list_ex (\<lambda>p. a \<in> set (children p)) (objects t))
                 [0..<length (objects t)]
         = (\<forall>a < length (objects t).
             (depth (objects t ! a) = Some 1 \<and> is_max (objects t ! a))
             \<or> (\<exists>q < length (objects t). a \<in> set (children (objects t ! q))))"
  proof -
    have e: "list_ex (\<lambda>p. a \<in> set (children p)) (objects t)
           = (\<exists>q < length (objects t). a \<in> set (children (objects t ! q)))" for a
      unfolding list_ex_length ..
    show ?thesis
      unfolding e list_all_iff by auto
  qed
  show ?thesis unfolding tree_invariant_def 1 2 3 4 ..
qed


lemma add_node_as_root:
  "add_node t i g mv ev1 ev2 None =
     Inr (t\<lparr>root := Some (length (objects t)),
            nodes := (nodes t)(i \<mapsto> length (objects t)),
            objects := objects t @
              [\<lparr>node_id = i, game = g, move = mv, e1 = ev1, e2 = ev2, children = [],
                is_max = True, depth = Some 1\<rparr>]\<rparr>)"
  by (simp add: add_node_def Let_def)

lemma add_node_as_child:
  assumes n: "\<forall>j a. nodes t j = Some a \<longrightarrow> a < length (objects t)"
    and ok: "add_node t i g mv ev1 ev2 (Some p) = Inr t'"
  shows "\<exists>pa pd. nodes t p = Some pa \<and> p \<noteq> i \<and> pa < length (objects t)
           \<and> depth (objects t ! pa) = Some pd
           \<and> t' = t\<lparr>nodes := (nodes t)(i \<mapsto> length (objects t)),
                     objects := (objects t)
                        [pa := (objects t ! pa)
                           \<lparr>children := children (objects t ! pa) @ [length (objects t)]\<rparr>]
                      @ [\<lparr>node_id = i, game = g, move = mv, e1 = ev1, e2 = ev2, children = [],
                          is_max = (\<not> is_max (objects t ! pa)),
                          depth = Some (pd + 1)\<rparr>]\<rparr>"
proof (cases "nodes t p")
  case None
  then show ?thesis using ok by (simp add: add_node_def)
next
  case (Some pa)
  then have pa: "pa < length (objects t)" using n by blast
  show ?thesis
  proof (cases "p = i")
    case True
    then show ?thesis using ok Some by (simp add: add_node_def Let_def)
  next
    case False
    show ?thesis
    proof (cases "depth (objects t ! pa)")
      case None
      then show ?thesis using ok Some False pa by (simp add: add_node_def Let_def nth_append)
    next
      case (Some pd)
      then show ?thesis using ok \<open>nodes t p = Some pa\<close> False pa
        by (auto simp: add_node_def Let_def nth_append list_update_append)
    qed
  qed
qed


lemma tree_invariant_new_tree: "tree_invariant new_tree"
  by (simp add: tree_invariant_iff new_tree_def)

lemma add_node_root_invariant:
  assumes inv: "tree_invariant t"
    and ok: "add_node t i g mv ev1 ev2 None = Inr t'"
  shows "tree_invariant t'"
proof -
  let ?n = "length (objects t)"
  let ?new = "\<lparr>node_id = i, game = g, move = mv, e1 = ev1, e2 = ev2, children = [],
               is_max = True, depth = Some 1\<rparr>"
  from ok have t': "root t' = Some ?n" "nodes t' = (nodes t)(i \<mapsto> ?n)"
    "objects t' = objects t @ [?new]"
    by (auto simp: add_node_as_root)
  from inv have
    i2: "\<And>j a. nodes t j = Some a \<Longrightarrow> a < ?n" and
    i3: "\<And>q. q < ?n \<Longrightarrow> \<exists>pd. depth (objects t ! q) = Some pd
           \<and> (\<forall>c \<in> set (children (objects t ! q)).
                 c < ?n \<and> depth (objects t ! c) = Some (pd + 1)
                 \<and> is_max (objects t ! c) = (\<not> is_max (objects t ! q)))" and
    i4: "\<And>a. a < ?n \<Longrightarrow> (depth (objects t ! a) = Some 1 \<and> is_max (objects t ! a))
           \<or> (\<exists>q < ?n. a \<in> set (children (objects t ! q)))"
    unfolding tree_invariant_iff by blast+
  have p1: "\<forall>r. root t' = Some r \<longrightarrow>
        r < length (objects t') \<and> depth (objects t' ! r) = Some 1 \<and> is_max (objects t' ! r)"
    by (simp add: t')
  have p2: "\<forall>j a. nodes t' j = Some a \<longrightarrow> a < length (objects t')"
    using i2 by (auto simp: t' less_Suc_eq)
  have p3: "\<forall>q < length (objects t'). \<exists>pd. depth (objects t' ! q) = Some pd
           \<and> (\<forall>c \<in> set (children (objects t' ! q)).
                 c < length (objects t') \<and> depth (objects t' ! c) = Some (pd + 1)
                 \<and> is_max (objects t' ! c) = (\<not> is_max (objects t' ! q)))"
  proof (intro allI impI)
    fix q assume "q < length (objects t')"
    then consider "q < ?n" | "q = ?n" by (auto simp: t' less_Suc_eq)
    then show "\<exists>pd. depth (objects t' ! q) = Some pd
           \<and> (\<forall>c \<in> set (children (objects t' ! q)).
                 c < length (objects t') \<and> depth (objects t' ! c) = Some (pd + 1)
                 \<and> is_max (objects t' ! c) = (\<not> is_max (objects t' ! q)))"
    proof cases
      case 1
      with i3 [OF 1] show ?thesis by (auto simp: t' nth_append)
    next
      case 2
      then show ?thesis by (simp add: t')
    qed
  qed
  have p4: "\<forall>a < length (objects t').
           (depth (objects t' ! a) = Some 1 \<and> is_max (objects t' ! a))
           \<or> (\<exists>q < length (objects t'). a \<in> set (children (objects t' ! q)))"
  proof (intro allI impI)
    fix a assume "a < length (objects t')"
    then consider "a < ?n" | "a = ?n" by (auto simp: t' less_Suc_eq)
    then show "(depth (objects t' ! a) = Some 1 \<and> is_max (objects t' ! a))
           \<or> (\<exists>q < length (objects t'). a \<in> set (children (objects t' ! q)))"
    proof cases
      case 1
      from i4 [OF 1] show ?thesis
      proof
        assume "depth (objects t ! a) = Some 1 \<and> is_max (objects t ! a)"
        then show ?thesis using 1 by (simp add: t' nth_append)
      next
        assume "\<exists>q < ?n. a \<in> set (children (objects t ! q))"
        then obtain q where "q < ?n" "a \<in> set (children (objects t ! q))" by blast
        then have "q < length (objects t') \<and> a \<in> set (children (objects t' ! q))"
          by (simp add: t' nth_append)
        then show ?thesis by blast
      qed
    next
      case 2
      then show ?thesis by (simp add: t')
    qed
  qed
  show ?thesis unfolding tree_invariant_iff using p1 p2 p3 p4 by blast
qed


lemma add_node_child_invariant:
  assumes inv: "tree_invariant t"
    and ok: "add_node t i g mv ev1 ev2 (Some p) = Inr t'"
  shows "tree_invariant t'"
proof -
  let ?n = "length (objects t)"
  from inv have
    i1: "\<And>r. root t = Some r \<Longrightarrow>
           r < ?n \<and> depth (objects t ! r) = Some 1 \<and> is_max (objects t ! r)" and
    i2: "\<And>j a. nodes t j = Some a \<Longrightarrow> a < ?n" and
    i3: "\<And>q. q < ?n \<Longrightarrow> \<exists>pd. depth (objects t ! q) = Some pd
           \<and> (\<forall>c \<in> set (children (objects t ! q)).
                 c < ?n \<and> depth (objects t ! c) = Some (pd + 1)
                 \<and> is_max (objects t ! c) = (\<not> is_max (objects t ! q)))" and
    i4: "\<And>a. a < ?n \<Longrightarrow> (depth (objects t ! a) = Some 1 \<and> is_max (objects t ! a))
           \<or> (\<exists>q < ?n. a \<in> set (children (objects t ! q)))"
    unfolding tree_invariant_iff by blast+
  from add_node_as_child [OF _ ok] i2 obtain pa pd where
    pa: "nodes t p = Some pa" "pa < ?n" and pd: "depth (objects t ! pa) = Some pd" and
    t'': "t' = t\<lparr>nodes := (nodes t)(i \<mapsto> ?n),
                  objects := (objects t)
                     [pa := (objects t ! pa)\<lparr>children := children (objects t ! pa) @ [?n]\<rparr>]
                   @ [\<lparr>node_id = i, game = g, move = mv, e1 = ev1, e2 = ev2, children = [],
                       is_max = (\<not> is_max (objects t ! pa)), depth = Some (pd + 1)\<rparr>]\<rparr>"
    by blast
  have len: "length (objects t') = Suc ?n" by (simp add: t'')
  have rt: "root t' = root t" and nd: "nodes t' = (nodes t)(i \<mapsto> ?n)" by (simp_all add: t'')
  have old: "depth (objects t' ! q) = depth (objects t ! q)"
      "is_max (objects t' ! q) = is_max (objects t ! q)"
      "children (objects t' ! q)
         = (if q = pa then children (objects t ! q) @ [?n] else children (objects t ! q))"
    if "q < ?n" for q
    using that pa(2) by (auto simp: t'' nth_append nth_list_update)
  have new: "depth (objects t' ! ?n) = Some (pd + 1)"
      "is_max (objects t' ! ?n) = (\<not> is_max (objects t ! pa))"
      "children (objects t' ! ?n) = []"
    by (simp_all add: t'' nth_append)
  have p1: "\<forall>r. root t' = Some r \<longrightarrow>
        r < length (objects t') \<and> depth (objects t' ! r) = Some 1 \<and> is_max (objects t' ! r)"
    using i1 by (auto simp: rt len old)
  have p2: "\<forall>j a. nodes t' j = Some a \<longrightarrow> a < length (objects t')"
    using i2 by (auto simp: nd len less_Suc_eq)
  have p3: "\<forall>q < length (objects t'). \<exists>d. depth (objects t' ! q) = Some d
           \<and> (\<forall>c \<in> set (children (objects t' ! q)).
                 c < length (objects t') \<and> depth (objects t' ! c) = Some (d + 1)
                 \<and> is_max (objects t' ! c) = (\<not> is_max (objects t' ! q)))"
  proof (intro allI impI)
    fix q assume "q < length (objects t')"
    then consider "q < ?n" | "q = ?n" by (auto simp: len less_Suc_eq)
    then show "\<exists>d. depth (objects t' ! q) = Some d
           \<and> (\<forall>c \<in> set (children (objects t' ! q)).
                 c < length (objects t') \<and> depth (objects t' ! c) = Some (d + 1)
                 \<and> is_max (objects t' ! c) = (\<not> is_max (objects t' ! q)))"
    proof cases
      case 1
      from i3 [OF 1] obtain d where d: "depth (objects t ! q) = Some d"
        and cs: "\<And>c. c \<in> set (children (objects t ! q)) \<Longrightarrow>
                 c < ?n \<and> depth (objects t ! c) = Some (d + 1)
                 \<and> is_max (objects t ! c) = (\<not> is_max (objects t ! q))"
        by blast
      have "c < length (objects t') \<and> depth (objects t' ! c) = Some (d + 1)
                 \<and> is_max (objects t' ! c) = (\<not> is_max (objects t' ! q))"
        if c: "c \<in> set (children (objects t' ! q))" for c
      proof (cases "c = ?n")
        case True
        with c 1 have "q = pa" by (auto simp: old split: if_splits dest: cs)
        then show ?thesis using True 1 d pd by (simp add: len new old)
      next
        case False
        with c 1 have "c \<in> set (children (objects t ! q))" by (auto simp: old split: if_splits)
        from cs [OF this] show ?thesis using 1 by (simp add: len old)
      qed
      then show ?thesis using d 1 by (auto simp: old)
    next
      case 2
      then show ?thesis by (simp add: new)
    qed
  qed
  have p4: "\<forall>a < length (objects t').
           (depth (objects t' ! a) = Some 1 \<and> is_max (objects t' ! a))
           \<or> (\<exists>q < length (objects t'). a \<in> set (children (objects t' ! q)))"
  proof (intro allI impI)
    fix a assume "a < length (objects t')"
    then consider "a < ?n" | "a = ?n" by (auto simp: len less_Suc_eq)
    then show "(depth (objects t' ! a) = Some 1 \<and> is_max (objects t' ! a))
           \<or> (\<exists>q < length (objects t'). a \<in> set (children (objects t' ! q)))"
    proof cases
      case 1
      from i4 [OF 1] show ?thesis
      proof
        assume "depth (objects t ! a) = Some 1 \<and> is_max (objects t ! a)"
        then show ?thesis using 1 by (simp add: old)
      next
        assume "\<exists>q < ?n. a \<in> set (children (objects t ! q))"
        then obtain q where "q < ?n" "a \<in> set (children (objects t ! q))" by blast
        then have "q < length (objects t') \<and> a \<in> set (children (objects t' ! q))"
          by (auto simp: len old)
        then show ?thesis by blast
      qed
    next
      case 2
      have "pa < length (objects t') \<and> a \<in> set (children (objects t' ! pa))"
        using pa(2) 2 by (simp add: len old)
      then show ?thesis by blast
    qed
  qed
  show ?thesis unfolding tree_invariant_iff using p1 p2 p3 p4 by blast
qed

lemma add_node_invariant:
  "tree_invariant t \<Longrightarrow> add_node t i g mv ev1 ev2 parent = Inr t' \<Longrightarrow> tree_invariant t'"
  by (cases parent) (auto intro: add_node_root_invariant add_node_child_invariant)

lemma add_nodes_invariant:
  "tree_invariant t \<Longrightarrow> add_nodes t cs = Inr t' \<Longrightarrow> tree_invariant t'"
proof (induction cs arbitrary: t)
  case Nil
  then show ?case by simp
next
  case (Cons c cs)
  from Cons.prems(2) obtain t1 where
    t1: "add_node t (call_id c) (call_game c) (call_move c) (call_e1 c) (call_e2 c)
           (call_parent c) = Inr t1"
    and r: "add_nodes t1 cs = Inr t'"
    by (auto split: sum.splits)
  from add_node_invariant [OF Cons.prems(1) t1] r show ?case by (rule Cons.IH)
qed

text \<open>
  Claim C9. Every tree built from the empty tree by a sequence of \<open>add_node\<close>
  calls that raise no exception satisfies \<open>tree_invariant\<close>: the root has depth 1
  and is maximizing, every child is one level deeper than its parent, and every
  child's maximizing flag is the negation of its parent's.
\<close>

theorem built_tree_invariant:
  assumes "add_nodes new_tree calls = Inr t"
  shows "tree_invariant t"
  using tree_invariant_new_tree assms by (rule add_nodes_invariant)

theorem built_tree_invariant_witness:
  "\<not> isl (add_nodes new_tree example_calls)
   \<and> tree_invariant (projr (add_nodes new_tree example_calls))
   \<and> map (\<lambda>n. (node_id n, depth n, is_max n, children n))
         (objects (projr (add_nodes new_tree example_calls)))
       = [(0, Some 1, True, [1]), (1, Some 2, False, [2]), (2, Some 3, True, [3]),
          (1, Some 4, False, [])]"
proof -
  have a: "\<not> isl (add_nodes new_tree example_calls)"
    by code_simp
  then have "add_nodes new_tree example_calls = Inr (projr (add_nodes new_tree example_calls))"
    by (cases "add_nodes new_tree example_calls") simp_all
  then have b: "tree_invariant (projr (add_nodes new_tree example_calls))"
    by (rule built_tree_invariant)
  have c: "map (\<lambda>n. (node_id n, depth n, is_max n, children n))
         (objects (projr (add_nodes new_tree example_calls)))
       = [(0, Some 1, True, [1]), (1, Some 2, False, [2]), (2, Some 3, True, [3]),
          (1, Some 4, False, [])]"
    by code_simp
  from a b c show ?thesis by simp
qed

end
